theory Spec2Isabelle
  imports Complex_Main
begin

section \<open>ModifiedSpeedDial: a shallow embedding of \<^verbatim>\<open>modifedspeeddial.py\<close>\<close>

text \<open>
  The widget of \<^verbatim>\<open>src/modifedspeeddial.py\<close> is modelled by explicit state passing. A value
  of the record \<open>speed_dial\<close> holds the attributes of the \<^verbatim>\<open>ModifiedSpeedDial\<close> object together
  with the part of the toolkit the methods read and write: the widgets the object created
  (a heap indexed by object identity), the children and event bindings of the window, the
  running animations, the scheduled clock callbacks, and a log of the events the object
  dispatched and of the touches it forwarded. Every method is a function from a state to
  \<open>py_error + speed_dial\<close>: \<open>Inl\<close> is the Python exception that leaves the method,
  \<open>Inr\<close> the state after a normal return.

  Python names that start with an underscore lose it (\<^verbatim>\<open>_buttons\<close> is \<open>buttons\<close>).
  Coordinates, sizes, opacities and durations are exact reals; the rounding of
  Python floats is not modelled.
\<close>

subsection \<open>Values\<close>

type_synonym wid = nat

type_synonym color = "real list"

type_synonym touch = "real \<times> real"

datatype py_error = AttributeError | IndexError | KeyError | ValueError | AssertionError

text \<open>
  A value of the \<^verbatim>\<open>data\<close> dictionary is an icon name or a list
  \<^verbatim>\<open>[icon, "on_press", cb, "on_release", cb, ...]\<close>: the elements of such a list are strings
  and callables.
\<close>

datatype item = Str string | Callable nat

datatype parameters = PStr string | PList "item list"

datatype widget_class = MDFloatingBottomButton | MDFloatingLabel

text \<open>What is bound to an event of a stack button.\<close>

datatype handler = Dispatch string | User item | On_enter | On_leave

record widget =
  w_class :: widget_class
  w_icon :: string
  w_text :: string
  w_x :: real
  w_y :: real
  w_width :: real
  w_height :: real
  w_opacity :: real
  w_parent :: bool
  w_bg_color :: color
  w_radius :: "real list"
  w_text_color :: color
  w_bound :: "(string \<times> handler) list"

text \<open>
  The geometry of a toolkit widget (Kivy's \<^verbatim>\<open>Widget\<close>): \<^verbatim>\<open>center_x\<close>, \<^verbatim>\<open>center_y\<close>,
  \<^verbatim>\<open>right\<close> and \<^verbatim>\<open>top\<close> are aliases computed from \<^verbatim>\<open>x\<close>, \<^verbatim>\<open>y\<close>, \<^verbatim>\<open>width\<close> and
  \<^verbatim>\<open>height\<close>; assigning \<^verbatim>\<open>center_y\<close> moves \<^verbatim>\<open>y\<close>. \<open>w_parent\<close> is
  \<^verbatim>\<open>widget.parent is not None\<close>: the only parent a stack widget ever gets is the window.
\<close>

definition center_x :: "widget \<Rightarrow> real" where
  "center_x w = w_x w + w_width w / 2"

definition center_y :: "widget \<Rightarrow> real" where
  "center_y w = w_y w + w_height w / 2"

definition right :: "widget \<Rightarrow> real" where
  "right w = w_x w + w_width w"

definition top :: "widget \<Rightarrow> real" where
  "top w = w_y w + w_height w"

definition set_center_x :: "real \<Rightarrow> widget \<Rightarrow> widget" where
  "set_center_x v w = w\<lparr>w_x := v - w_width w / 2\<rparr>"

definition set_center_y :: "real \<Rightarrow> widget \<Rightarrow> widget" where
  "set_center_y v w = w\<lparr>w_y := v - w_height w / 2\<rparr>"

definition collide_point :: "widget \<Rightarrow> touch \<Rightarrow> bool" where
  "collide_point w p =
     (w_x w \<le> fst p \<and> fst p \<le> right w \<and> w_y w \<le> snd p \<and> snd p \<le> top w)"

text \<open>The parent of the speed dial: the root button it is attached to.\<close>

datatype callback =
    Open_stack | Update_pos_buttons | Touch_down | Touch_move | Touch_up
  | Add_widgets | Open_binding | Close_binding

record root_button =
  has_on_press :: bool
  has_on_release :: bool
  p_center_x :: real
  p_center_y :: real
  p_bound :: "(string \<times> callback) set"

datatype window = Window

datatype dial_state = Close | Open

datatype h_direction = Left | Right

datatype v_direction = Top | Bottom

subsection \<open>Animations\<close>

text \<open>
  An \<^verbatim>\<open>Animation\<close> object carries the target values of the properties it animates, a
  duration and a transition name. Once started on a target it is a running animation,
  with the callbacks bound to its completion and, for the fade-in chain of
  \<^verbatim>\<open>do_animation_open_stack\<close>, the chain its \<^verbatim>\<open>on_progress\<close> callback advances.
\<close>

datatype property =
    Opacity real | Canvas_width real | Elevation real | Center_y real | Size "real \<times> real"

record animation =
  a_props :: "property list"
  a_d :: real
  a_t :: string

datatype target = On_window | On_widget wid

record running =
  r_target :: target
  r_anim :: animation
  r_on_complete :: "callback list"
  r_on_progress :: "nat option"

subsection \<open>The toolkit\<close>

text \<open>
  What the methods take from the toolkit without it being part of the object's state:
  \<open>dp\<close> is \<^verbatim>\<open>kivy.metrics.dp\<close>, the conversion from density-independent pixels to
  pixels; \<open>button_size\<close> and \<open>label_size\<close> are the sizes the toolkit gives a fresh
  \<^verbatim>\<open>MDFloatingBottomButton\<close> and a fresh \<^verbatim>\<open>MDFloatingLabel\<close> with a given text.
\<close>

record toolkit =
  dp :: "real \<Rightarrow> real"
  button_size :: "real \<times> real"
  label_size :: "string \<Rightarrow> real \<times> real"

subsection \<open>The state\<close>

record speed_dial =
  label_text_color :: "color option"
  label_bg_color :: color
  label_radius :: "real list"
  label_direction :: h_direction
  button_text_offset :: real
  stack_button_direction :: v_direction
  hint_animation :: bool
  opening_transition :: string
  closing_transition :: string
  opening_time :: real
  closing_time :: real
  data :: "(string \<times> parameters) list"
  auto_dismiss :: bool
  state :: dial_state
  disabled :: bool
  parent :: "root_button option"
  anim_buttons_data :: "(wid \<times> animation) list"
  anim_labels_data :: "(wid \<times> animation) list"
  window :: "window option"
  touch_started_inside :: "bool option"
  buttons :: "wid list"
  labels :: "wid option list"
  local_positions :: "real list"
  widget_declaration_finished :: bool
  heap :: "wid \<Rightarrow> widget"
  next_wid :: wid
  root_window :: "window option"
  window_size :: "real \<times> real"
  window_children :: "wid list"
  window_bound :: "(string \<times> callback) set"
  animations :: "running list"
  chains :: "(wid list \<times> (wid \<times> animation) list) list"
  clock :: "(string \<times> parameters) list list"
  dispatched :: "string list"
  forwarded :: "(string \<times> touch) list"
  theme_text_color :: color

text \<open>
  \<open>data\<close> is the \<^verbatim>\<open>DictProperty\<close>: an association list in insertion order, with
  distinct keys. \<open>anim_buttons_data\<close> and \<open>anim_labels_data\<close> are the dictionaries from a
  widget to its fade-in animation. \<open>root_window\<close> is what \<^verbatim>\<open>get_root_window()\<close>
  returns, \<open>theme_text_color\<close> is \<^verbatim>\<open>theme_cls.text_color\<close>. \<open>clock\<close> holds the rebuilds
  scheduled by \<^verbatim>\<open>Clock.schedule_once\<close>, each with the dictionary its closure captured.
  \<open>dispatched\<close> lists the events passed to \<^verbatim>\<open>self.dispatch\<close> and \<open>forwarded\<close> the calls
  of the window's own \<^verbatim>\<open>on_touch_down\<close>, \<^verbatim>\<open>on_touch_move\<close> and \<^verbatim>\<open>on_touch_up\<close>, oldest
  first.
\<close>

subsection \<open>Helpers\<close>

definition then_do :: "'e + 'a \<Rightarrow> ('a \<Rightarrow> 'e + 'b) \<Rightarrow> 'e + 'b" where
  "then_do m f = (case m of Inl e \<Rightarrow> Inl e | Inr a \<Rightarrow> f a)"

text \<open>A \<^verbatim>\<open>for\<close> loop whose body may raise.\<close>

fun for_each :: "('a \<Rightarrow> 's \<Rightarrow> 'e + 's) \<Rightarrow> 'a list \<Rightarrow> 's \<Rightarrow> 'e + 's" where
  "for_each f [] s = Inr s"
| "for_each f (a # as) s = (case f a s of Inl e \<Rightarrow> Inl e | Inr s' \<Rightarrow> for_each f as s')"

text \<open>\<^verbatim>\<open>list.index\<close>: the first position of an element; \<open>None\<close> is its \<^verbatim>\<open>ValueError\<close>.\<close>

fun index_of :: "'a list \<Rightarrow> 'a \<Rightarrow> nat option" where
  "index_of [] a = None"
| "index_of (x # xs) a = (if x = a then Some 0 else map_option Suc (index_of xs a))"

definition enumerate_list :: "'a list \<Rightarrow> (nat \<times> 'a) list" where
  "enumerate_list xs = zip [0 ..< length xs] xs"

text \<open>The class dictionary \<^verbatim>\<open>_direction_vals\<close>, split by the property that indexes it.\<close>

fun direction_vals_h :: "h_direction \<Rightarrow> real" where
  "direction_vals_h Right = 1"
| "direction_vals_h Left = - 1"

fun direction_vals_v :: "v_direction \<Rightarrow> real" where
  "direction_vals_v Top = 1"
| "direction_vals_v Bottom = - 1"

text \<open>\<^verbatim>\<open>isinstance\<close> on an entry of \<^verbatim>\<open>_buttons + _labels\<close> (an entry of \<^verbatim>\<open>_labels\<close> may be \<^verbatim>\<open>None\<close>).\<close>

definition is_button :: "speed_dial \<Rightarrow> wid option \<Rightarrow> bool" where
  "is_button s w = (case w of None \<Rightarrow> False
     | Some i \<Rightarrow> w_class (heap s i) = MDFloatingBottomButton)"

definition is_label :: "speed_dial \<Rightarrow> wid option \<Rightarrow> bool" where
  "is_label s w = (case w of None \<Rightarrow> False
     | Some i \<Rightarrow> w_class (heap s i) = MDFloatingLabel)"

definition update_widget :: "wid \<Rightarrow> (widget \<Rightarrow> widget) \<Rightarrow> speed_dial \<Rightarrow> speed_dial" where
  "update_widget i f s = s\<lparr>heap := (heap s)(i := f (heap s i))\<rparr>"

subsection \<open>Positioning\<close>

text \<open>
  \<^verbatim>\<open>set_pos_bottom_buttons\<close>. The horizontal centre falls back on the class attribute
  \<^verbatim>\<open>_root_button\<close> (all zeros) when there is no parent; the vertical centre reads
  \<^verbatim>\<open>self.parent.center_y\<close> and raises without one.
\<close>

definition root_center_x :: "speed_dial \<Rightarrow> real" where
  "root_center_x s = (case parent s of None \<Rightarrow> 0 | Some p \<Rightarrow> p_center_x p)"

definition set_pos_bottom_buttons :: "wid \<Rightarrow> speed_dial \<Rightarrow> py_error + speed_dial" where
  "set_pos_bottom_buttons b s =
     (let s1 = update_widget b (set_center_x (root_center_x s)) s in
      case parent s1 of
        None \<Rightarrow> Inl AttributeError
      | Some p \<Rightarrow>
          (case index_of (buttons s1) b of
             None \<Rightarrow> Inl ValueError
           | Some i \<Rightarrow>
               if i < length (local_positions s1)
               then Inr (update_widget b
                           (set_center_y (p_center_y p + local_positions s1 ! i)) s1)
               else Inl IndexError))"

text \<open>\<^verbatim>\<open>set_pos_labels\<close>.\<close>

definition set_pos_labels :: "toolkit \<Rightarrow> wid \<Rightarrow> speed_dial \<Rightarrow> py_error + speed_dial" where
  "set_pos_labels tk l s =
     (let s1 = (if widget_declaration_finished s
                then s\<lparr>window_bound := window_bound s - {(''on_draw'', Update_pos_buttons)},
                       widget_declaration_finished := False\<rparr>
                else s);
          s2 = update_widget l (\<lambda>w. w\<lparr>w_x := root_center_x s1
                  + button_text_offset s1 * direction_vals_h (label_direction s1)\<rparr>) s1;
          s3 = update_widget l (\<lambda>w. w\<lparr>w_x := w_x w
                  - (if label_direction s2 = Left then dp tk (w_width w) else 0)\<rparr>) s2
      in case parent s3 of
           None \<Rightarrow> Inl AttributeError
         | Some p \<Rightarrow>
             (case index_of (labels s3) (Some l) of
                None \<Rightarrow> Inl ValueError
              | Some i \<Rightarrow>
                  if i < length (local_positions s3)
                  then Inr (update_widget l
                              (set_center_y (p_center_y p + local_positions s3 ! i)) s3)
                  else Inl IndexError))"

text \<open>\<^verbatim>\<open>_update_pos_buttons\<close>: every entry of \<^verbatim>\<open>_buttons + _labels\<close>, by its class.\<close>

definition update_pos_step :: "toolkit \<Rightarrow> wid option \<Rightarrow> speed_dial \<Rightarrow> py_error + speed_dial" where
  "update_pos_step tk w s =
     (case w of
        None \<Rightarrow> Inr s
      | Some i \<Rightarrow>
          if is_button s (Some i) then set_pos_bottom_buttons i s
          else if is_label s (Some i) then set_pos_labels tk i s
          else Inr s)"

definition update_pos_buttons :: "toolkit \<Rightarrow> speed_dial \<Rightarrow> py_error + speed_dial" where
  "update_pos_buttons tk s = for_each (update_pos_step tk) (map Some (buttons s) @ labels s) s"

subsection \<open>Attaching to a parent\<close>

text \<open>
  \<^verbatim>\<open>on_parent\<close> is the observer of the \<^verbatim>\<open>parent\<close> property: the toolkit assigns
  \<^verbatim>\<open>self.parent\<close> and then calls it with the new parent (\<open>set_parent\<close>).
  \<^verbatim>\<open>hasattr\<close> is false for every name on \<^verbatim>\<open>None\<close>.
\<close>

definition on_parent :: "toolkit \<Rightarrow> root_button option \<Rightarrow> speed_dial \<Rightarrow> py_error + speed_dial" where
  "on_parent tk instance_parent s =
     (if (case instance_parent of None \<Rightarrow> False
          | Some p \<Rightarrow> has_on_release p \<and> has_on_press p)
      then (case parent s of
              None \<Rightarrow> Inl AttributeError
            | Some q \<Rightarrow>
                update_pos_buttons tk
                  (s\<lparr>parent := Some (q\<lparr>p_bound := insert (''on_release'', Open_stack) (p_bound q)\<rparr>)\<rparr>))
      else Inl ValueError)"

definition set_parent :: "toolkit \<Rightarrow> root_button option \<Rightarrow> speed_dial \<Rightarrow> py_error + speed_dial" where
  "set_parent tk p s = on_parent tk p (s\<lparr>parent := p\<rparr>)"

subsection \<open>Adding widgets to the window and removing them\<close>

text \<open>
  The window's own \<^verbatim>\<open>add_widget\<close> puts the widget in front of its children and makes
  itself the widget's parent; its \<^verbatim>\<open>remove_widget\<close> does nothing for a widget that is
  not a child, and otherwise removes it and clears its parent.
\<close>

definition window_add_widget :: "wid \<Rightarrow> speed_dial \<Rightarrow> speed_dial" where
  "window_add_widget w s =
     update_widget w (\<lambda>x. x\<lparr>w_parent := True\<rparr>) (s\<lparr>window_children := w # window_children s\<rparr>)"

definition window_remove_widget :: "wid \<Rightarrow> speed_dial \<Rightarrow> speed_dial" where
  "window_remove_widget w s =
     (if w \<in> set (window_children s)
      then update_widget w (\<lambda>x. x\<lparr>w_parent := False\<rparr>)
             (s\<lparr>window_children := remove1 w (window_children s)\<rparr>)
      else s)"

definition add_widget :: "wid \<Rightarrow> speed_dial \<Rightarrow> speed_dial" where
  "add_widget w s =
     (if window s \<noteq> None \<and> \<not> w_parent (heap s w) then window_add_widget w s else s)"

definition remove_widget :: "wid \<Rightarrow> speed_dial \<Rightarrow> speed_dial" where
  "remove_widget w s = (if window s \<noteq> None then window_remove_widget w s else s)"

fun add_widgets_step :: "nat \<times> wid \<Rightarrow> speed_dial \<Rightarrow> py_error + speed_dial" where
  "add_widgets_step (i, b) s =
     (let s1 = (if is_button s (Some b) then add_widget b s else s) in
      if i < length (labels s1)
      then (case labels s1 ! i of
              None \<Rightarrow> Inr s1
            | Some l \<Rightarrow> Inr (if is_label s1 (Some l) then add_widget l s1 else s1))
      else Inl IndexError)"

definition add_widgets :: "speed_dial \<Rightarrow> py_error + speed_dial" where
  "add_widgets s = for_each add_widgets_step (enumerate_list (buttons s)) s"

fun remove_widgets_step :: "nat \<times> wid \<Rightarrow> speed_dial \<Rightarrow> py_error + speed_dial" where
  "remove_widgets_step (i, b) s =
     (let s1 = (if is_button s (Some b) then remove_widget b s else s) in
      if i < length (labels s1)
      then (case labels s1 ! i of
              None \<Rightarrow> Inr s1
            | Some l \<Rightarrow> Inr (if is_label s1 (Some l) then remove_widget l s1 else s1))
      else Inl IndexError)"

definition remove_widgets :: "speed_dial \<Rightarrow> py_error + speed_dial" where
  "remove_widgets s = for_each remove_widgets_step (enumerate_list (buttons s)) s"

subsection \<open>Building the stack\<close>

text \<open>
  \<^verbatim>\<open>on_data\<close> is the observer of the \<^verbatim>\<open>data\<close> property. It removes the old widgets,
  resets the sequences and the animation dictionaries, and schedules its inner function
  for the next clock tick. \<open>set_data\<close> is the assignment of the property: the toolkit
  stores the dictionary and calls the observer, unless the dictionary assigned equals
  the one the property holds.
\<close>

definition on_data :: "(string \<times> parameters) list \<Rightarrow> speed_dial \<Rightarrow> py_error + speed_dial" where
  "on_data d s =
     then_do (remove_widgets s) (\<lambda>s1.
       Inr (s1\<lparr>buttons := [], labels := [], local_positions := [],
               anim_buttons_data := [], anim_labels_data := [],
               clock := clock s1 @ [d]\<rparr>))"

definition set_data :: "(string \<times> parameters) list \<Rightarrow> speed_dial \<Rightarrow> py_error + speed_dial" where
  "set_data d s = (if d = data s then Inr s else on_data d (s\<lparr>data := d\<rparr>))"

text \<open>
  \<^verbatim>\<open>parameters if (type(parameters) is str) else parameters[0]\<close>; the \<^verbatim>\<open>icon\<close> property of
  the button accepts strings only.
\<close>

fun name_icon :: "parameters \<Rightarrow> py_error + string" where
  "name_icon (PStr v) = Inr v"
| "name_icon (PList []) = Inl IndexError"
| "name_icon (PList (Str v # xs)) = Inr v"
| "name_icon (PList (Callable c # xs)) = Inl ValueError"

text \<open>
  \<^verbatim>\<open>key in parameters\<close> and \<^verbatim>\<open>parameters[parameters.index(key) + 1]\<close>. On a string the
  first is a substring test and the second yields the character after the first
  character of the match.
\<close>

fun is_prefix :: "'a list \<Rightarrow> 'a list \<Rightarrow> bool" where
  "is_prefix [] ys = True"
| "is_prefix (x # xs) [] = False"
| "is_prefix (x # xs) (y # ys) = (x = y \<and> is_prefix xs ys)"

fun find_sub :: "'a list \<Rightarrow> 'a list \<Rightarrow> nat option" where
  "find_sub k [] = (if k = [] then Some 0 else None)"
| "find_sub k (c # cs) =
     (if is_prefix k (c # cs) then Some 0 else map_option Suc (find_sub k cs))"

fun contains_key :: "string \<Rightarrow> parameters \<Rightarrow> bool" where
  "contains_key k (PStr v) = (find_sub k v \<noteq> None)"
| "contains_key k (PList xs) = (Str k \<in> set xs)"

fun callback_after :: "string \<Rightarrow> parameters \<Rightarrow> py_error + item" where
  "callback_after k (PStr v) =
     (case find_sub k v of
        None \<Rightarrow> Inl ValueError
      | Some i \<Rightarrow> if i + 1 < length v then Inr (Str [v ! (i + 1)]) else Inl IndexError)"
| "callback_after k (PList xs) =
     (case index_of xs (Str k) of
        None \<Rightarrow> Inl ValueError
      | Some i \<Rightarrow> if i + 1 < length xs then Inr (xs ! (i + 1)) else Inl IndexError)"

text \<open>
  \<^verbatim>\<open>bottom_button.bind(on_press=callback)\<close>: the toolkit's \<^verbatim>\<open>bind\<close> asserts that what it
  binds is callable, so a string in the place of the callback raises.
\<close>

definition bind_user :: "string \<Rightarrow> parameters \<Rightarrow> widget \<Rightarrow> py_error + widget" where
  "bind_user k ps w =
     (if contains_key k ps
      then then_do (callback_after k ps) (\<lambda>cb.
             case cb of
               Callable c \<Rightarrow> Inr (w\<lparr>w_bound := w_bound w @ [(k, User cb)]\<rparr>)
             | Str v \<Rightarrow> Inl AssertionError)
      else Inr w)"

text \<open>
  The fresh button, with the bindings of its constructor and of the first
  \<^verbatim>\<open>bottom_button.bind\<close>, and the fresh label with the attributes assigned to it.
\<close>

definition new_button :: "toolkit \<Rightarrow> string \<Rightarrow> widget" where
  "new_button tk ic =
     \<lparr>w_class = MDFloatingBottomButton, w_icon = ic, w_text = [],
      w_x = 0, w_y = 0, w_width = fst (button_size tk), w_height = snd (button_size tk),
      w_opacity = 0, w_parent = False, w_bg_color = [], w_radius = [], w_text_color = [],
      w_bound = [(''on_enter'', On_enter), (''on_leave'', On_leave),
                 (''on_press'', Dispatch ''on_press_stack_button''),
                 (''on_release'', Dispatch ''on_release_stack_button'')]\<rparr>"

definition new_label :: "toolkit \<Rightarrow> speed_dial \<Rightarrow> string \<Rightarrow> widget" where
  "new_label tk s floating_text =
     \<lparr>w_class = MDFloatingLabel, w_icon = [], w_text = floating_text,
      w_x = 0, w_y = 0, w_width = fst (label_size tk floating_text),
      w_height = snd (label_size tk floating_text),
      w_opacity = 0, w_parent = False, w_bg_color = label_bg_color s,
      w_radius = label_radius s,
      w_text_color = (case label_text_color s of
                        None \<Rightarrow> theme_text_color s
                      | Some c \<Rightarrow> if c = [] then theme_text_color s else c),
      w_bound = []\<rparr>"

text \<open>The body of the loop of the inner \<^verbatim>\<open>on_data\<close>, for one entry of the dictionary.\<close>

fun rebuild_entry :: "toolkit \<Rightarrow> string \<times> parameters \<Rightarrow> speed_dial \<Rightarrow> py_error + speed_dial" where
  "rebuild_entry tk (name, ps) s =
     then_do (name_icon ps) (\<lambda>ic.
     then_do (bind_user ''on_press'' ps (new_button tk ic)) (\<lambda>w1.
     then_do (bind_user ''on_release'' ps w1) (\<lambda>w2.
       let b = next_wid s;
           s1 = s\<lparr>heap := (heap s)(b := w2), next_wid := Suc b, buttons := buttons s @ [b]\<rparr>;
           label = (if name \<noteq> [] then Some (next_wid s1) else None);
           s2 = (case label of
                   None \<Rightarrow> s1
                 | Some l \<Rightarrow> s1\<lparr>heap := (heap s1)(l := new_label tk s1 name), next_wid := Suc l\<rparr>);
           s3 = s2\<lparr>labels := labels s2 @ [label],
                   local_positions := local_positions s2 @ [0]\<rparr>
       in then_do (set_pos_bottom_buttons b s3) (\<lambda>s4.
            case label of
              None \<Rightarrow> Inr s4
            | Some l \<Rightarrow> if is_label s4 (Some l) then set_pos_labels tk l s4 else Inr s4))))"

definition on_data_inner :: "toolkit \<Rightarrow> (string \<times> parameters) list \<Rightarrow> speed_dial \<Rightarrow> py_error + speed_dial" where
  "on_data_inner tk d s =
     then_do (for_each (rebuild_entry tk) d
                (s\<lparr>window_bound := insert (''on_draw'', Update_pos_buttons) (window_bound s)\<rparr>))
       (\<lambda>s1. Inr (s1\<lparr>widget_declaration_finished := True\<rparr>))"

subsection \<open>Starting and cancelling animations\<close>

text \<open>
  \<^verbatim>\<open>Animation(...).start(target)\<close> makes the animation a running one;
  \<^verbatim>\<open>Animation.cancel_all(widget)\<close> drops the animations running on the widget without
  completing them.
\<close>

definition start_animation ::
  "target \<Rightarrow> animation \<Rightarrow> callback list \<Rightarrow> nat option \<Rightarrow> speed_dial \<Rightarrow> speed_dial" where
  "start_animation tg a cs ch s =
     s\<lparr>animations := animations s
          @ [\<lparr>r_target = tg, r_anim = a, r_on_complete = cs, r_on_progress = ch\<rparr>]\<rparr>"

definition cancel_all :: "wid \<Rightarrow> speed_dial \<Rightarrow> speed_dial" where
  "cancel_all w s = s\<lparr>animations := filter (\<lambda>r. r_target r \<noteq> On_widget w) (animations s)\<rparr>"

subsection \<open>Closing\<close>

fun close_step :: "wid \<times> wid option \<Rightarrow> speed_dial \<Rightarrow> py_error + speed_dial" where
  "close_step (b, l) s =
     then_do
       (if is_button s (Some b)
        then (case parent s of
                None \<Rightarrow> Inl AttributeError
              | Some p \<Rightarrow>
                  Inr (start_animation (On_widget b)
                         \<lparr>a_props = [Center_y (p_center_y p), Opacity 0],
                          a_d = closing_time s, a_t = closing_transition s\<rparr> [] None s))
        else Inr s)
       (\<lambda>s1. Inr (case l of
                     None \<Rightarrow> s1
                   | Some j \<Rightarrow>
                       if is_label s1 (Some j) \<and> w_opacity (heap s1 j) > 0
                       then start_animation (On_widget j)
                              \<lparr>a_props = [Opacity 0], a_d = 0.01, a_t = ''linear''\<rparr> [] None s1
                       else s1))"

definition close_stack :: "speed_dial \<Rightarrow> py_error + speed_dial" where
  "close_stack s =
     (case window s of
        None \<Rightarrow> Inl AttributeError
      | Some win \<Rightarrow>
          then_do
            (for_each close_step (zip (buttons s) (labels s))
               (start_animation On_window
                  \<lparr>a_props = [Size (window_size s)], a_d = closing_time s + 0.1,
                   a_t = ''linear''\<rparr> [Close_binding] None s))
            (\<lambda>s1. Inr (s1\<lparr>disabled := True, state := Close,
                           dispatched := dispatched s1 @ [''on_close'']\<rparr>)))"

subsection \<open>Touch handlers\<close>

text \<open>
  The list comprehension of \<^verbatim>\<open>touch_down\<close> calls \<^verbatim>\<open>collide_point\<close> on every entry of
  \<^verbatim>\<open>_buttons + _labels\<close>; an entry that is \<^verbatim>\<open>None\<close> has no such attribute.
\<close>

fun collide_list :: "(wid \<Rightarrow> widget) \<Rightarrow> wid option list \<Rightarrow> touch \<Rightarrow> py_error + bool list" where
  "collide_list h [] t = Inr []"
| "collide_list h (None # ws) t = Inl AttributeError"
| "collide_list h (Some i # ws) t =
     then_do (collide_list h ws t) (\<lambda>bs. Inr (collide_point (h i) t # bs))"

definition forward :: "string \<Rightarrow> touch \<Rightarrow> speed_dial \<Rightarrow> py_error + speed_dial" where
  "forward name t s =
     (case window s of
        None \<Rightarrow> Inl AttributeError
      | Some win \<Rightarrow> Inr (s\<lparr>forwarded := forwarded s @ [(name, t)]\<rparr>))"

definition touch_down :: "touch \<Rightarrow> speed_dial \<Rightarrow> py_error + bool \<times> speed_dial" where
  "touch_down t s =
     then_do (collide_list (heap s) (map Some (buttons s) @ labels s) t) (\<lambda>bs.
       let s1 = s\<lparr>touch_started_inside := Some (True \<in> set bs)\<rparr> in
       if \<not> auto_dismiss s1 \<or> touch_started_inside s1 = Some True
       then then_do (forward ''on_touch_down'' t s1) (\<lambda>s2. Inr (True, s2))
       else Inr (True, s1))"

definition touch_move :: "touch \<Rightarrow> speed_dial \<Rightarrow> py_error + bool \<times> speed_dial" where
  "touch_move t s =
     (if \<not> auto_dismiss s \<or> touch_started_inside s = Some True
      then then_do (forward ''on_touch_move'' t s) (\<lambda>s1. Inr (True, s1))
      else Inr (True, s))"

definition touch_up :: "touch \<Rightarrow> speed_dial \<Rightarrow> py_error + bool \<times> speed_dial" where
  "touch_up t s =
     then_do
       (if auto_dismiss s \<and> touch_started_inside s = Some False
        then close_stack s
        else forward ''on_touch_up'' t s)
       (\<lambda>s1. Inr (True, s1\<lparr>touch_started_inside := None\<rparr>))"

definition touch_handlers :: "(string \<times> callback) set" where
  "touch_handlers = {(''on_touch_down'', Touch_down), (''on_touch_move'', Touch_move),
                     (''on_touch_up'', Touch_up)}"

definition open_binding :: "speed_dial \<Rightarrow> py_error + speed_dial" where
  "open_binding s =
     (case window s of
        None \<Rightarrow> Inl AttributeError
      | Some win \<Rightarrow> Inr (s\<lparr>window_bound := window_bound s \<union> touch_handlers\<rparr>))"

definition close_binding :: "speed_dial \<Rightarrow> py_error + speed_dial" where
  "close_binding s =
     then_do (remove_widgets s) (\<lambda>s1.
       case window s1 of
         None \<Rightarrow> Inl AttributeError
       | Some win \<Rightarrow> Inr (s1\<lparr>window_bound := window_bound s1 - touch_handlers\<rparr>))"

subsection \<open>Opening\<close>

text \<open>
  \<^verbatim>\<open>do_animation_open_stack\<close>. Starting the window animation dispatches its
  \<^verbatim>\<open>on_start\<close> at once, which adds the widgets; \<^verbatim>\<open>open_binding\<close> waits for its completion.
  The iterator \<^verbatim>\<open>widgets_list\<close> and the dictionary the closures share are a chain of
  the state; \<^verbatim>\<open>animation_open_stack\<close> takes the next widget of the chain and starts its
  animation, or does nothing when the iterator is exhausted.
\<close>

definition animation_open_stack :: "nat \<Rightarrow> speed_dial \<Rightarrow> py_error + speed_dial" where
  "animation_open_stack c s =
     (if c < length (chains s)
      then (case chains s ! c of
              ([], ad) \<Rightarrow> Inr s
            | (w # ws, ad) \<Rightarrow>
                (case map_of ad w of
                   None \<Rightarrow> Inl KeyError
                 | Some a \<Rightarrow>
                     Inr (start_animation (On_widget w) a [] (Some c)
                            (s\<lparr>chains := (chains s)[c := (ws, ad)]\<rparr>))))
      else Inr s)"

definition do_animation_open_stack ::
  "(wid \<times> animation) list \<Rightarrow> speed_dial \<Rightarrow> py_error + speed_dial" where
  "do_animation_open_stack anim_data s =
     (case window s of
        None \<Rightarrow> Inl AttributeError
      | Some win \<Rightarrow>
          then_do
            (add_widgets
               (start_animation On_window
                  \<lparr>a_props = [Size (window_size s)], a_d = opening_time s, a_t = ''linear''\<rparr>
                  [Open_binding] None s))
            (\<lambda>s1. animation_open_stack (length (chains s1))
                     (s1\<lparr>chains := chains s1 @ [(map fst anim_data, anim_data)]\<rparr>)))"

text \<open>Assignment to a key of a dictionary and to an index of a list.\<close>

fun dict_set :: "'k \<Rightarrow> 'v \<Rightarrow> ('k \<times> 'v) list \<Rightarrow> ('k \<times> 'v) list" where
  "dict_set k v [] = [(k, v)]"
| "dict_set k v (kv # kvs) = (if fst kv = k then (k, v) # kvs else kv # dict_set k v kvs)"

definition list_set :: "'a list \<Rightarrow> nat \<Rightarrow> 'a \<Rightarrow> py_error + 'a list" where
  "list_set xs i v = (if i < length xs then Inr (xs[i := v]) else Inl IndexError)"

text \<open>
  The body of the loop of \<^verbatim>\<open>open_stack\<close>; the loop carries the local variables
  \<^verbatim>\<open>y\<close>, \<^verbatim>\<open>anim_buttons_data\<close> and \<^verbatim>\<open>anim_labels_data\<close> beside the object.
\<close>

type_synonym open_loop = "real \<times> (wid \<times> animation) list \<times> (wid \<times> animation) list \<times> speed_dial"

fun open_step :: "toolkit \<Rightarrow> nat \<times> wid \<Rightarrow> open_loop \<Rightarrow> py_error + open_loop" where
  "open_step tk (i, b) (y, abd, ald, s) =
     (if is_button s (Some b)
      then
        let y1 = y + dp tk 56 * direction_vals_v (stack_button_direction s) in
        then_do
          (if local_positions s = []
           then then_do (list_set (local_positions s) i y1)
                  (\<lambda>lp. Inr (s\<lparr>local_positions := lp\<rparr>))
           else Inr s)
          (\<lambda>s1.
            let s2 = update_widget b (\<lambda>w. set_center_y (center_y w + y1) w) s1;
                abd1 = (if anim_buttons_data s2 = []
                        then dict_set b \<lparr>a_props = [Opacity 1], a_d = opening_time s2,
                                         a_t = opening_transition s2\<rparr> abd
                        else abd)
            in if i < length (labels s2)
               then (case labels s2 ! i of
                       None \<Rightarrow> Inr (y1, abd1, ald, s2)
                     | Some l \<Rightarrow>
                         if is_label s2 (Some l)
                         then
                           let s3 = update_widget l (set_center_y (center_y (heap s2 b))) s2;
                               ald1 = (if anim_labels_data s3 = []
                                       then dict_set l \<lparr>a_props = [Opacity 1],
                                              a_d = opening_time s3, a_t = ''linear''\<rparr> ald
                                       else ald)
                           in Inr (y1, abd1, ald1, s3)
                         else Inr (y1, abd1, ald, s2))
               else Inl IndexError)
      else Inr (y, abd, ald, s))"

definition cancel_labels :: "speed_dial \<Rightarrow> speed_dial" where
  "cancel_labels s =
     fold (\<lambda>l s'. case l of None \<Rightarrow> s'
                  | Some j \<Rightarrow> if is_label s' (Some j) then cancel_all j s' else s')
       (labels s) s"

definition open_stack :: "toolkit \<Rightarrow> speed_dial \<Rightarrow> py_error + speed_dial" where
  "open_stack tk s =
     (let s0 = cancel_labels s in
      if state s0 \<noteq> Open
      then
        let s1 = s0\<lparr>window := root_window s0\<rparr> in
        then_do
          (for_each (open_step tk) (enumerate_list (buttons s1))
             (30 * direction_vals_v (stack_button_direction s1), [], [], s1))
          (\<lambda>(y, abd, ald, s2).
             let s3 = (if abd \<noteq> [] then s2\<lparr>anim_buttons_data := abd\<rparr> else s2);
                 s4 = (if ald \<noteq> [] \<and> \<not> hint_animation s3
                       then s3\<lparr>anim_labels_data := ald\<rparr> else s3);
                 s5 = s4\<lparr>disabled := False, state := Open,
                         dispatched := dispatched s4 @ [''on_open'']\<rparr>
             in then_do (do_animation_open_stack (anim_buttons_data s5) s5)
                  (\<lambda>s6. do_animation_open_stack (anim_labels_data s6) s6))
      else close_stack s0)"

subsection \<open>Hover\<close>

text \<open>
  The test of \<^verbatim>\<open>on_enter\<close>:
  \<^verbatim>\<open>icon == data[text] or icon == data[text][0]\<close>. A string never equals a list, and the
  first element of a string is its first character.
\<close>

fun icon_matches :: "string \<Rightarrow> parameters \<Rightarrow> py_error + bool" where
  "icon_matches ic (PStr v) =
     (if ic = v then Inr True
      else (case v of [] \<Rightarrow> Inl IndexError | c # cs \<Rightarrow> Inr (ic = [c])))"
| "icon_matches ic (PList xs) =
     (case xs of [] \<Rightarrow> Inl IndexError | x # ys \<Rightarrow> Inr (x = Str ic))"

definition fade_in :: "speed_dial \<Rightarrow> animation" where
  "fade_in s = \<lparr>a_props = [Opacity 1], a_d = opening_time s, a_t = opening_transition s\<rparr>"

definition fade_out :: "speed_dial \<Rightarrow> animation" where
  "fade_out s = \<lparr>a_props = [Opacity 0], a_d = 0.1, a_t = opening_transition s\<rparr>"

definition on_enter :: "wid \<Rightarrow> speed_dial \<Rightarrow> py_error + speed_dial" where
  "on_enter b s =
     (if state s = Open
      then (case index_of (buttons s) b of
              None \<Rightarrow> Inl ValueError
            | Some i \<Rightarrow>
                if i < length (labels s)
                then (case labels s ! i of
                        None \<Rightarrow> Inr s
                      | Some l \<Rightarrow>
                          if is_label s (Some l) \<and> hint_animation s
                          then
                            let s1 = cancel_all l s;
                                s2 = start_animation (On_widget b)
                                       \<lparr>a_props = [Canvas_width
                                           (- 1 * (w_width (heap s1 l) + button_text_offset s1)
                                              * direction_vals_h (label_direction s1))],
                                        a_d = opening_time s1, a_t = opening_transition s1\<rparr>
                                       [] None s1
                            in (case map_of (data s2) (w_text (heap s2 l)) of
                                  None \<Rightarrow> Inl KeyError
                                | Some ps \<Rightarrow>
                                    then_do (icon_matches (w_icon (heap s2 b)) ps) (\<lambda>m.
                                      Inr (start_animation (On_widget l)
                                             (if m then fade_in s2 else fade_out s2)
                                             [] None s2)))
                          else Inr s)
                else Inl IndexError)
      else Inr s)"

definition on_leave :: "wid \<Rightarrow> speed_dial \<Rightarrow> py_error + speed_dial" where
  "on_leave b s =
     (if state s = Open
      then (case index_of (buttons s) b of
              None \<Rightarrow> Inl ValueError
            | Some i \<Rightarrow>
                if i < length (labels s)
                then (case labels s ! i of
                        None \<Rightarrow> Inr s
                      | Some l \<Rightarrow>
                          if is_label s (Some l) \<and> hint_animation s
                          then
                            let s1 = cancel_all l s;
                                s2 = start_animation (On_widget b)
                                       \<lparr>a_props = [Canvas_width 0, Elevation 0],
                                        a_d = opening_time s1, a_t = opening_transition s1\<rparr>
                                       [] None s1
                            in Inr (start_animation (On_widget l) (fade_out s2) [] None s2)
                          else Inr s)
                else Inl IndexError)
      else Inr s)"

subsection \<open>The toolkit's event loop\<close>

text \<open>
  The methods run when the toolkit calls them. An event of the model is one such call:
  a touch phase of the window (it reaches a touch handler only while the handler is bound
  to the window), a progress tick or the completion of a running animation, a release
  of the root button, a clock tick that runs the oldest scheduled rebuild. The window's
  own handling of a touch that no handler takes is outside the model.
\<close>

datatype event =
    Touch_down_at touch | Touch_move_at touch | Touch_up_at touch
  | Progress nat real | Complete nat | Release_parent | Tick

text \<open>A completed animation leaves its target values on its target.\<close>

fun apply_property :: "target \<Rightarrow> property \<Rightarrow> speed_dial \<Rightarrow> speed_dial" where
  "apply_property (On_widget w) (Opacity v) s = update_widget w (\<lambda>x. x\<lparr>w_opacity := v\<rparr>) s"
| "apply_property (On_widget w) (Center_y v) s = update_widget w (set_center_y v) s"
| "apply_property On_window (Size v) s = s\<lparr>window_size := v\<rparr>"
| "apply_property tg p s = s"

fun run_callback :: "toolkit \<Rightarrow> callback \<Rightarrow> speed_dial \<Rightarrow> py_error + speed_dial" where
  "run_callback tk Open_binding s = open_binding s"
| "run_callback tk Close_binding s = close_binding s"
| "run_callback tk Add_widgets s = add_widgets s"
| "run_callback tk Update_pos_buttons s = update_pos_buttons tk s"
| "run_callback tk Open_stack s = open_stack tk s"
| "run_callback tk cb s = Inr s"

definition drop_nth :: "nat \<Rightarrow> 'a list \<Rightarrow> 'a list" where
  "drop_nth k xs = take k xs @ drop (Suc k) xs"

fun fire :: "toolkit \<Rightarrow> event \<Rightarrow> speed_dial \<Rightarrow> py_error + speed_dial" where
  "fire tk (Touch_down_at t) s =
     (if (''on_touch_down'', Touch_down) \<in> window_bound s
      then then_do (touch_down t s) (\<lambda>r. Inr (snd r)) else Inr s)"
| "fire tk (Touch_move_at t) s =
     (if (''on_touch_move'', Touch_move) \<in> window_bound s
      then then_do (touch_move t s) (\<lambda>r. Inr (snd r)) else Inr s)"
| "fire tk (Touch_up_at t) s =
     (if (''on_touch_up'', Touch_up) \<in> window_bound s
      then then_do (touch_up t s) (\<lambda>r. Inr (snd r)) else Inr s)"
| "fire tk (Progress k v) s =
     (if k < length (animations s)
      then (case r_on_progress (animations s ! k) of
              None \<Rightarrow> Inr s
            | Some c \<Rightarrow> if v \<ge> 0.1 then animation_open_stack c s else Inr s)
      else Inr s)"
| "fire tk (Complete k) s =
     (if k < length (animations s)
      then
        let r = animations s ! k;
            s1 = fold (apply_property (r_target r)) (a_props (r_anim r))
                   (s\<lparr>animations := drop_nth k (animations s)\<rparr>)
        in for_each (run_callback tk) (r_on_complete r) s1
      else Inr s)"
| "fire tk Release_parent s =
     (case parent s of
        None \<Rightarrow> Inr s
      | Some p \<Rightarrow> if (''on_release'', Open_stack) \<in> p_bound p then open_stack tk s else Inr s)"
| "fire tk Tick s =
     (case clock s of
        [] \<Rightarrow> Inr s
      | d # ds \<Rightarrow> on_data_inner tk d (s\<lparr>clock := ds\<rparr>))"

definition run :: "toolkit \<Rightarrow> event list \<Rightarrow> speed_dial \<Rightarrow> py_error + speed_dial" where
  "run tk es s = for_each (fire tk) es s"

text \<open>
  The object after \<^verbatim>\<open>__init__\<close>, with the defaults of its properties, in a window of
  800 by 600 pixels it is part of.
\<close>

definition initial :: "toolkit \<Rightarrow> speed_dial" where
  "initial tk =
     \<lparr>label_text_color = None, label_bg_color = [0, 0, 0, 0], label_radius = [0, 0, 0, 0],
      label_direction = Right, button_text_offset = dp tk 33,
      stack_button_direction = Top, hint_animation = False,
      opening_transition = ''out_cubic'', closing_transition = ''out_cubic'',
      opening_time = 0.5, closing_time = 0.2, data = [], auto_dismiss = True,
      state = Close, disabled = True, parent = None,
      anim_buttons_data = [], anim_labels_data = [], window = None,
      touch_started_inside = None, buttons = [], labels = [], local_positions = [],
      widget_declaration_finished = False, heap = (\<lambda>i. new_button tk []), next_wid = 0,
      root_window = Some Window, window_size = (800, 600), window_children = [],
      window_bound = {(''on_resize'', Update_pos_buttons), (''on_maximize'', Update_pos_buttons),
                      (''on_restore'', Update_pos_buttons)},
      animations = [], chains = [], clock = [], dispatched = [], forwarded = [],
      theme_text_color = [0, 0, 0, 1]\<rparr>"

subsection \<open>Well-formed states\<close>

text \<open>
  The three sequences are index-aligned; every entry of \<^verbatim>\<open>_buttons\<close> is a button and
  every entry of \<^verbatim>\<open>_labels\<close> a label or \<^verbatim>\<open>None\<close>.
\<close>

definition aligned :: "speed_dial \<Rightarrow> bool" where
  "aligned s = (length (labels s) = length (buttons s)
     \<and> length (local_positions s) = length (buttons s))"

definition stack_widgets :: "speed_dial \<Rightarrow> wid set" where
  "stack_widgets s = set (buttons s) \<union> {l. Some l \<in> set (labels s)}"

definition well_classed :: "speed_dial \<Rightarrow> bool" where
  "well_classed s = (list_all (\<lambda>b. is_button s (Some b)) (buttons s)
     \<and> list_all (\<lambda>l. l = None \<or> is_label s l) (labels s))"

text \<open>
  The children of the window are distinct and each has a parent, as the window's own
  \<^verbatim>\<open>add_widget\<close> and \<^verbatim>\<open>remove_widget\<close> keep them.
\<close>

definition children_ok :: "speed_dial \<Rightarrow> bool" where
  "children_ok s = (distinct (window_children s)
     \<and> list_all (\<lambda>w. w_parent (heap s w)) (window_children s))"

text \<open>
  What the positioning methods need to return, and what they leave as it is.
\<close>

definition pos_ok :: "speed_dial \<Rightarrow> bool" where
  "pos_ok s = (parent s \<noteq> None \<and> aligned s \<and> well_classed s)"

definition pos_rel :: "speed_dial \<Rightarrow> speed_dial \<Rightarrow> bool" where
  "pos_rel s s' = (buttons s' = buttons s \<and> labels s' = labels s
     \<and> local_positions s' = local_positions s \<and> parent s' = parent s
     \<and> (\<lambda>i. w_class (heap s' i)) = (\<lambda>i. w_class (heap s i)))"

subsection \<open>What a method leaves as it is\<close>

text \<open>
  \<open>eff_rel s s'\<close>: the state \<open>s'\<close> differs from \<open>s\<close> at most in the widgets' attributes
  other than their class, icon, text and size (\<open>same_kind\<close>), in the children of the window, in the running animations and
  in the chains. \<open>add_rel\<close> is the part of it that adding widgets needs: a widget with a
  parent keeps it and the window keeps its children. \<open>step_done\<close> says what one pass of
  the loop of \<^verbatim>\<open>add_widgets\<close> has done for an entry, \<open>loop_rel\<close> lifts \<open>eff_rel\<close> to the
  loop of \<^verbatim>\<open>open_stack\<close>, and \<open>opened s s5\<close> describes the state \<open>s5\<close> in which
  \<^verbatim>\<open>open_stack\<close>, called on \<open>s\<close>, makes its two calls of \<^verbatim>\<open>do_animation_open_stack\<close>.
\<close>

definition same_kind :: "widget \<Rightarrow> widget \<Rightarrow> bool" where
  "same_kind w w' = (w_class w' = w_class w \<and> w_icon w' = w_icon w \<and> w_text w' = w_text w
     \<and> w_width w' = w_width w \<and> w_height w' = w_height w)"

definition eff_rel :: "speed_dial \<Rightarrow> speed_dial \<Rightarrow> bool" where
  "eff_rel s s' = ((\<exists>h c a ch. s' = s\<lparr>heap := h, window_children := c, animations := a, chains := ch\<rparr>)
     \<and> (\<forall>i. same_kind (heap s i) (heap s' i)))"

definition loop_rel :: "open_loop \<Rightarrow> open_loop \<Rightarrow> bool" where
  "loop_rel p q = eff_rel (snd (snd (snd p))) (snd (snd (snd q)))"

definition opened :: "speed_dial \<Rightarrow> speed_dial \<Rightarrow> bool" where
  "opened s s5 = (\<exists>s2 abd ald.
      eff_rel ((cancel_labels s)\<lparr>window := root_window (cancel_labels s)\<rparr>) s2
    \<and> s5 = (let s3 = (if abd \<noteq> [] then s2\<lparr>anim_buttons_data := abd\<rparr> else s2);
                 s4 = (if ald \<noteq> [] \<and> \<not> hint_animation s3
                       then s3\<lparr>anim_labels_data := ald\<rparr> else s3)
             in s4\<lparr>disabled := False, state := Open,
                    dispatched := dispatched s4 @ [''on_open'']\<rparr>))"

definition add_rel :: "speed_dial \<Rightarrow> speed_dial \<Rightarrow> bool" where
  "add_rel s s' = (buttons s' = buttons s \<and> labels s' = labels s \<and> window s' = window s
     \<and> local_positions s' = local_positions s
     \<and> (\<forall>i. w_class (heap s' i) = w_class (heap s i))
     \<and> (\<forall>i. w_parent (heap s i) \<longrightarrow> w_parent (heap s' i))
     \<and> set (window_children s) \<subseteq> set (window_children s'))"

definition step_done :: "speed_dial \<Rightarrow> speed_dial \<Rightarrow> nat \<times> wid \<Rightarrow> bool" where
  "step_done s s' ib = (fst ib < length (labels s)
     \<and> (window s = None \<or>
         ((is_button s (Some (snd ib)) \<longrightarrow> w_parent (heap s' (snd ib)))
          \<and> (\<forall>l. labels s ! fst ib = Some l \<and> is_label s (Some l) \<longrightarrow> w_parent (heap s' l)))))"

subsection \<open>What the rebuild and the removal leave as they are\<close>

text \<open>
  \<open>build_rel\<close> is the frame of the positioning methods inside the rebuild, \<open>rem_rel\<close>
  the frame of \<^verbatim>\<open>remove_widget\<close>: the children of the window only shrink and stay
  distinct. \<open>rstep_done\<close> says what one pass of the loop of \<^verbatim>\<open>remove_widgets\<close> has done
  for an entry. \<open>entry_ok\<close> holds of a value of the dictionary the rebuild can read: it
  has an icon name, and a key \<^verbatim>\<open>on_press\<close> or \<^verbatim>\<open>on_release\<close> in it is followed by a
  callable.
\<close>

definition build_rel :: "speed_dial \<Rightarrow> speed_dial \<Rightarrow> bool" where
  "build_rel s s' = (buttons s' = buttons s \<and> labels s' = labels s
     \<and> local_positions s' = local_positions s \<and> next_wid s' = next_wid s
     \<and> parent s' = parent s
     \<and> (\<forall>i. same_kind (heap s i) (heap s' i)))"

definition rem_rel :: "speed_dial \<Rightarrow> speed_dial \<Rightarrow> bool" where
  "rem_rel s s' = (buttons s' = buttons s \<and> labels s' = labels s
     \<and> local_positions s' = local_positions s \<and> window s' = window s
     \<and> clock s' = clock s \<and> parent s' = parent s
     \<and> (\<forall>i. same_kind (heap s i) (heap s' i))
     \<and> set (window_children s') \<subseteq> set (window_children s)
     \<and> (distinct (window_children s) \<longrightarrow> distinct (window_children s')))"

definition rstep_done :: "speed_dial \<Rightarrow> speed_dial \<Rightarrow> nat \<times> wid \<Rightarrow> bool" where
  "rstep_done s s' ib = (fst ib < length (labels s)
     \<and> (window s = None \<or> \<not> distinct (window_children s) \<or>
         ((is_button s (Some (snd ib)) \<longrightarrow> snd ib \<notin> set (window_children s'))
          \<and> (\<forall>l. labels s ! fst ib = Some l \<and> is_label s (Some l) \<longrightarrow>
                 l \<notin> set (window_children s')))))"

definition callable_after :: "string \<Rightarrow> parameters \<Rightarrow> bool" where
  "callable_after k ps = (case callback_after k ps of
     Inl e \<Rightarrow> False
   | Inr cb \<Rightarrow> (case cb of Callable c \<Rightarrow> True | Str v \<Rightarrow> False))"

definition entry_ok :: "parameters \<Rightarrow> bool" where
  "entry_ok ps = (\<not> isl (name_icon ps)
     \<and> (contains_key ''on_press'' ps \<longrightarrow> callable_after ''on_press'' ps)
     \<and> (contains_key ''on_release'' ps \<longrightarrow> callable_after ''on_release'' ps))"

subsection \<open>Concrete inputs\<close>

text \<open>
  Two toolkits, one at density 1 and one at density 2; a root button at the centre of
  the window and one without \<^verbatim>\<open>on_press\<close>; a dictionary of two entries, the second
  without hint text, and two dictionaries of one entry; and the stack built from a
  dictionary: the object is attached to the root button, \<^verbatim>\<open>data\<close> is assigned, and the
  clock ticks once.
\<close>

definition tk1 :: toolkit where
  "tk1 = \<lparr>dp = (\<lambda>v. v), button_size = (56, 56),
          label_size = (\<lambda>t. (10 * real (length t), 20))\<rparr>"

definition tk2 :: toolkit where
  "tk2 = \<lparr>dp = (\<lambda>v. 2 * v), button_size = (112, 112),
          label_size = (\<lambda>t. (20 * real (length t), 40))\<rparr>"

definition root1 :: root_button where
  "root1 = \<lparr>has_on_press = True, has_on_release = True, p_center_x = 400, p_center_y = 300,
            p_bound = {}\<rparr>"

definition root0 :: root_button where
  "root0 = \<lparr>has_on_press = False, has_on_release = True, p_center_x = 400, p_center_y = 300,
            p_bound = {}\<rparr>"

definition data1 :: "(string \<times> parameters) list" where
  "data1 = [(''Edit'', PStr ''pencil''),
            ([], PList [Str ''plus'', Str ''on_press'', Callable 0])]"

definition data7 :: "(string \<times> parameters) list" where
  "data7 = [(''Edit'', PStr ''ab'')]"

definition data8 :: "(string \<times> parameters) list" where
  "data8 = [([], PStr ''plus'')]"

definition built :: "toolkit \<Rightarrow> (string \<times> parameters) list \<Rightarrow> py_error + speed_dial" where
  "built tk d = then_do (set_parent tk (Some root1) (initial tk)) (\<lambda>s.
                then_do (set_data d s) (fire tk Tick))"

definition state_of :: "py_error + speed_dial \<Rightarrow> speed_dial" where
  "state_of r = (case r of Inl e \<Rightarrow> initial tk1 | Inr s \<Rightarrow> s)"

text \<open>
  \<^verbatim>\<open>data\<close> is assigned twice before the clock runs, first the dictionary of the text
  \<^verbatim>\<open>Edit\<close> and then the dictionary of the empty text; the clock then runs the two
  rebuilds that were scheduled.
\<close>

definition assigned_twice :: "py_error + speed_dial" where
  "assigned_twice = then_do (set_parent tk1 (Some root1) (initial tk1)) (\<lambda>s.
                    then_do (set_data data7 s) (\<lambda>s.
                    then_do (set_data data8 s) (run tk1 [Tick, Tick])))"

text \<open>
  The stack of one entry is opened by a release of the root button and the four
  animations of the opening complete, the first of them the window animation that binds
  the touch handlers; a touch outside the stack dismisses it; and the root button is
  released again while the animations of the closing are running.
\<close>

definition reopened :: "py_error + speed_dial" where
  "reopened = run tk1 [Release_parent, Complete 0, Complete 0, Complete 0, Complete 0,
                       Touch_down_at (0, 0), Touch_up_at (0, 0), Release_parent]
                (state_of (built tk1 data7))"

section \<open>Properties\<close>

subsection \<open>Evaluation of the concrete inputs\<close>

lemmas build_defs = built_def state_of_def tk1_def tk2_def root1_def data1_def initial_def
  then_do_def set_parent_def on_parent_def update_pos_buttons_def update_pos_step_def
  set_data_def on_data_def remove_widgets_def enumerate_list_def on_data_inner_def
  bind_user_def new_button_def new_label_def set_pos_bottom_buttons_def set_pos_labels_def
  update_widget_def is_button_def is_label_def root_center_x_def set_center_x_def
  set_center_y_def

lemma built_tk1_data1:
  "\<exists>s. built tk1 data1 = Inr s \<and> buttons s = [0, 2] \<and> labels s = [Some 1, None]
     \<and> local_positions s = [0, 0]
     \<and> w_class (heap s 0) = MDFloatingBottomButton \<and> w_class (heap s 1) = MDFloatingLabel
     \<and> w_class (heap s 2) = MDFloatingBottomButton"
  by (simp add: build_defs Let_def)

lemma built_tk1_data1_aligned:
  "aligned (state_of (built tk1 data1)) \<and> well_classed (state_of (built tk1 data1))"
proof -
  from built_tk1_data1 obtain s where "built tk1 data1 = Inr s" "buttons s = [0, 2]"
    "labels s = [Some 1, None]" "local_positions s = [0, 0]"
    "w_class (heap s 0) = MDFloatingBottomButton" "w_class (heap s 1) = MDFloatingLabel"
    "w_class (heap s 2) = MDFloatingBottomButton" by blast
  then show ?thesis
    by (simp add: state_of_def aligned_def well_classed_def is_button_def is_label_def)
qed

subsection \<open>Positioning returns on well-formed states\<close>

lemma index_of_mem:
  "a \<in> set xs \<Longrightarrow> \<exists>i. index_of xs a = Some i \<and> i < length xs"
  by (induction xs) auto

lemma pos_rel_ok: "pos_ok s \<Longrightarrow> pos_rel s s' \<Longrightarrow> pos_ok s'"
  by (auto simp: pos_ok_def pos_rel_def aligned_def well_classed_def is_button_def is_label_def
      fun_eq_iff list_all_iff split: option.splits)

lemma pos_rel_trans: "pos_rel s s' \<Longrightarrow> pos_rel s' s'' \<Longrightarrow> pos_rel s s''"
  by (simp add: pos_rel_def)

lemma set_pos_bottom_buttons_ok:
  assumes "pos_ok s" "b \<in> set (buttons s)"
  shows "\<exists>s'. set_pos_bottom_buttons b s = Inr s' \<and> pos_rel s s'"
proof -
  from index_of_mem [OF assms(2)] obtain i where
    i: "index_of (buttons s) b = Some i" "i < length (buttons s)"
    by blast
  with assms(1) show ?thesis
    by (auto simp: pos_ok_def aligned_def pos_rel_def set_pos_bottom_buttons_def
        update_widget_def set_center_x_def set_center_y_def Let_def fun_eq_iff)
qed

lemma set_pos_labels_ok:
  assumes "pos_ok s" "Some l \<in> set (labels s)"
  shows "\<exists>s'. set_pos_labels tk l s = Inr s' \<and> pos_rel s s'"
proof -
  from index_of_mem [OF assms(2)] obtain i where
    i: "index_of (labels s) (Some l) = Some i" "i < length (labels s)"
    by blast
  with assms(1) show ?thesis
    by (auto simp: pos_ok_def aligned_def pos_rel_def set_pos_labels_def update_widget_def
        set_center_y_def Let_def fun_eq_iff)
qed

lemma update_pos_step_ok:
  assumes "pos_ok s" "w \<in> set (map Some (buttons s) @ labels s)"
  shows "\<exists>s'. update_pos_step tk w s = Inr s' \<and> pos_rel s s'"
proof (cases w)
  case None
  then show ?thesis by (simp add: update_pos_step_def pos_rel_def)
next
  case (Some i)
  show ?thesis
  proof (cases "is_button s (Some i)")
    case True
    have "i \<in> set (buttons s)"
    proof (rule ccontr)
      assume "i \<notin> set (buttons s)"
      with assms(2) Some have "Some i \<in> set (labels s)" by auto
      with assms(1) have "is_label s (Some i)"
        by (auto simp: pos_ok_def well_classed_def list_all_iff)
      with True show False by (simp add: is_button_def is_label_def)
    qed
    with set_pos_bottom_buttons_ok [OF assms(1)] True Some show ?thesis
      by (simp add: update_pos_step_def)
  next
    case False
    show ?thesis
    proof (cases "is_label s (Some i)")
      case True
      have "Some i \<in> set (labels s)"
      proof (rule ccontr)
        assume "Some i \<notin> set (labels s)"
        with assms(2) Some have "i \<in> set (buttons s)" by auto
        with assms(1) have "is_button s (Some i)"
          by (auto simp: pos_ok_def well_classed_def list_all_iff)
        with False show False by simp
      qed
      with set_pos_labels_ok [OF assms(1)] True False Some show ?thesis
        by (simp add: update_pos_step_def)
    next
      case nl: False
      with False Some show ?thesis by (simp add: update_pos_step_def pos_rel_def)
    qed
  qed
qed

lemma for_each_update_pos_ok:
  "pos_ok s \<Longrightarrow> set ws \<subseteq> set (map Some (buttons s) @ labels s) \<Longrightarrow>
   \<exists>s'. for_each (update_pos_step tk) ws s = Inr s' \<and> pos_rel s s'"
proof (induction ws arbitrary: s)
  case Nil
  then show ?case by (simp add: pos_rel_def)
next
  case (Cons w ws)
  from Cons.prems have "w \<in> set (map Some (buttons s) @ labels s)" by simp
  from update_pos_step_ok [OF Cons.prems(1) this] obtain s1 where
    s1: "update_pos_step tk w s = Inr s1" "pos_rel s s1" by blast
  have ok1: "pos_ok s1" using pos_rel_ok [OF Cons.prems(1) s1(2)] .
  have "set ws \<subseteq> set (map Some (buttons s1) @ labels s1)"
    using Cons.prems(2) s1(2) by (simp add: pos_rel_def)
  from Cons.IH [OF ok1 this] obtain s2 where
    s2: "for_each (update_pos_step tk) ws s1 = Inr s2" "pos_rel s1 s2" by blast
  with s1 show ?case by (auto intro: pos_rel_trans)
qed

lemma update_pos_buttons_ok:
  "pos_ok s \<Longrightarrow> \<exists>s'. update_pos_buttons tk s = Inr s' \<and> pos_rel s s'"
  unfolding update_pos_buttons_def by (rule for_each_update_pos_ok) auto

subsection \<open>Attaching to a parent\<close>

text \<open>
  C6. On a state whose sequences are aligned and whose widgets have their classes,
  assigning a parent raises exactly when the parent does not have both \<^verbatim>\<open>on_press\<close> and
  \<^verbatim>\<open>on_release\<close>, and what it raises then is the \<^verbatim>\<open>ValueError\<close> of \<^verbatim>\<open>on_parent\<close>. When
  the parent has both, \<^verbatim>\<open>on_parent\<close> returns and \<^verbatim>\<open>open_stack\<close> is bound to the
  \<^verbatim>\<open>on_release\<close> event of the parent.
\<close>

theorem on_parent_raises_iff_incapable:
  assumes "aligned s" and "well_classed s"
  shows "((\<exists>e. set_parent tk (Some p) s = Inl e) = (\<not> (has_on_press p \<and> has_on_release p)))
       \<and> (\<not> (has_on_press p \<and> has_on_release p) \<longrightarrow> set_parent tk (Some p) s = Inl ValueError)
       \<and> (has_on_press p \<and> has_on_release p \<longrightarrow>
            (\<exists>s' q. set_parent tk (Some p) s = Inr s' \<and> parent s' = Some q
                \<and> (''on_release'', Open_stack) \<in> p_bound q))"
proof (cases "has_on_press p \<and> has_on_release p")
  case False
  then show ?thesis by (auto simp: set_parent_def on_parent_def)
next
  case True
  let ?q = "p\<lparr>p_bound := insert (''on_release'', Open_stack) (p_bound p)\<rparr>"
  let ?s = "s\<lparr>parent := Some ?q\<rparr>"
  have "pos_ok ?s" using assms
    by (auto simp: pos_ok_def aligned_def well_classed_def is_button_def is_label_def
        list_all_iff split: option.splits)
  from update_pos_buttons_ok [OF this, of tk] obtain s' where
    s': "update_pos_buttons tk ?s = Inr s'" "pos_rel ?s s'" by blast
  have run: "set_parent tk (Some p) s = Inr s'"
    using True s'(1) by (simp add: set_parent_def on_parent_def)
  have "parent s' = Some ?q" using s'(2) by (simp add: pos_rel_def)
  with run True show ?thesis by simp
qed

theorem on_parent_raises_iff_incapable_witness:
  "aligned (state_of (built tk1 data1)) \<and> well_classed (state_of (built tk1 data1))
   \<and> set_parent tk1 (Some root0) (state_of (built tk1 data1)) = Inl ValueError
   \<and> (\<exists>s' q. set_parent tk1 (Some root1) (state_of (built tk1 data1)) = Inr s'
         \<and> parent s' = Some q \<and> (''on_release'', Open_stack) \<in> p_bound q)"
proof -
  have a: "aligned (state_of (built tk1 data1))" and w: "well_classed (state_of (built tk1 data1))"
    using built_tk1_data1_aligned by simp_all
  show ?thesis
    using a w on_parent_raises_iff_incapable [OF a w, of tk1 root0]
      on_parent_raises_iff_incapable [OF a w, of tk1 root1]
    by (simp add: root0_def root1_def)
qed

subsection \<open>Frames\<close>

lemma same_kind_refl: "same_kind w w"
  by (simp add: same_kind_def)

lemma same_kind_trans: "same_kind a b \<Longrightarrow> same_kind b c \<Longrightarrow> same_kind a c"
  by (simp add: same_kind_def)

lemma eff_relI:
  "s' = s\<lparr>heap := h, window_children := c, animations := a, chains := ch\<rparr> \<Longrightarrow>
   (\<forall>i. same_kind (heap s i) (h i)) \<Longrightarrow> eff_rel s s'"
  unfolding eff_rel_def by auto

lemma eff_rel_refl: "eff_rel s s"
  by (rule eff_relI [where h = "heap s" and c = "window_children s" and a = "animations s" and ch = "chains s"])
     (simp_all add: same_kind_refl)

lemma eff_rel_trans: "eff_rel s s' \<Longrightarrow> eff_rel s' s'' \<Longrightarrow> eff_rel s s''"
  unfolding eff_rel_def by (elim conjE exE) (simp, blast intro: same_kind_trans)

lemma eff_rel_class:
  "eff_rel s s' \<Longrightarrow> is_button s' w = is_button s w \<and> is_label s' w = is_label s w"
  by (simp add: eff_rel_def same_kind_def is_button_def is_label_def split: option.splits)

lemma eff_rel_kind: "eff_rel s s' \<Longrightarrow> same_kind (heap s i) (heap s' i)"
  by (simp add: eff_rel_def)

lemma eff_rel_update_widget:
  "(\<And>w. same_kind w (f w)) \<Longrightarrow> eff_rel s (update_widget i f s)"
  by (rule eff_relI [where h = "(heap s)(i := f (heap s i))" and c = "window_children s" and a = "animations s" and ch = "chains s"])
     (simp_all add: update_widget_def same_kind_refl)

lemma eff_rel_start_animation: "eff_rel s (start_animation tg a cs ch s)"
  by (rule eff_relI [where h = "heap s" and c = "window_children s" and ch = "chains s"])
     (simp_all add: start_animation_def same_kind_refl)

lemma eff_rel_cancel_all: "eff_rel s (cancel_all w s)"
  by (rule eff_relI [where h = "heap s" and c = "window_children s" and ch = "chains s"])
     (simp_all add: cancel_all_def same_kind_refl)

lemma eff_rel_add_widget: "eff_rel s (add_widget w s)"
proof (cases "window s \<noteq> None \<and> \<not> w_parent (heap s w)")
  case True
  then show ?thesis
    by (intro eff_relI [where h = "(heap s)(w := (heap s w)\<lparr>w_parent := True\<rparr>)" and c = "w # window_children s" and a = "animations s" and ch = "chains s"])
       (simp_all add: add_widget_def window_add_widget_def update_widget_def same_kind_def)
next
  case False
  then show ?thesis by (auto simp: add_widget_def eff_rel_refl)
qed

lemma eff_rel_fields:
  assumes "eff_rel s s'"
  shows "state s' = state s" "disabled s' = disabled s" "dispatched s' = dispatched s"
    "buttons s' = buttons s" "labels s' = labels s" "local_positions s' = local_positions s"
    "parent s' = parent s" "window s' = window s" "window_bound s' = window_bound s"
    "forwarded s' = forwarded s" "touch_started_inside s' = touch_started_inside s"
    "auto_dismiss s' = auto_dismiss s" "root_window s' = root_window s"
    "hint_animation s' = hint_animation s" "anim_buttons_data s' = anim_buttons_data s"
    "anim_labels_data s' = anim_labels_data s" "opening_time s' = opening_time s"
    "stack_button_direction s' = stack_button_direction s" "window_size s' = window_size s"
    "data s' = data s" "clock s' = clock s"
  using assms unfolding eff_rel_def by auto

lemma for_each_rel:
  assumes "\<And>s. R s s" and "\<And>a b c. R a b \<Longrightarrow> R b c \<Longrightarrow> R a c"
    and "\<And>x s s'. x \<in> set xs \<Longrightarrow> f x s = Inr s' \<Longrightarrow> R s s'"
    and "for_each f xs s = Inr s'"
  shows "R s s'"
  using assms(3,4)
proof (induction xs arbitrary: s)
  case Nil
  then show ?case by (simp add: assms(1))
next
  case (Cons x xs)
  from Cons.prems(2) obtain s1 where s1: "f x s = Inr s1" "for_each f xs s1 = Inr s'"
    by (auto split: sum.splits)
  have "R s s1" using Cons.prems(1) [of x s s1] s1(1) by simp
  moreover have "R s1 s'"
  proof (rule Cons.IH [OF _ s1(2)])
    fix y t t' assume "y \<in> set xs" "f y t = Inr t'"
    then show "R t t'" using Cons.prems(1) [of y t t'] by simp
  qed
  ultimately show ?case by (rule assms(2))
qed

lemma for_each_ok:
  assumes "I s" and "\<And>x s. x \<in> set xs \<Longrightarrow> I s \<Longrightarrow> \<exists>s'. f x s = Inr s' \<and> I s'"
  shows "\<exists>s'. for_each f xs s = Inr s' \<and> I s'"
  using assms
proof (induction xs arbitrary: s)
  case Nil
  then show ?case by simp
next
  case (Cons x xs)
  from Cons.prems obtain s1 where s1: "f x s = Inr s1" "I s1" by fastforce
  from Cons.IH [OF s1(2)] Cons.prems(2) obtain s2 where "for_each f xs s1 = Inr s2" "I s2"
    by fastforce
  with s1 show ?case by simp
qed

lemma close_step_rel: "close_step bl s = Inr s' \<Longrightarrow> eff_rel s s'"
proof -
  assume a: "close_step bl s = Inr s'"
  obtain b l where bl: "bl = (b, l)" by (cases bl)
  from a bl obtain s1 where s1:
    "(if is_button s (Some b)
        then (case parent s of
                None \<Rightarrow> Inl AttributeError
              | Some p \<Rightarrow>
                  Inr (start_animation (On_widget b)
                         \<lparr>a_props = [Center_y (p_center_y p), Opacity 0],
                          a_d = closing_time s, a_t = closing_transition s\<rparr> [] None s))
        else Inr s) = Inr s1"
    and s': "s' = (case l of
                     None \<Rightarrow> s1
                   | Some j \<Rightarrow>
                       if is_label s1 (Some j) \<and> w_opacity (heap s1 j) > 0
                       then start_animation (On_widget j)
                              \<lparr>a_props = [Opacity 0], a_d = 0.01, a_t = ''linear''\<rparr> [] None s1
                       else s1)"
    by (auto simp: then_do_def split: sum.splits)
  have "eff_rel s s1" using s1
    by (auto simp: eff_rel_refl eff_rel_start_animation split: if_splits option.splits)
  moreover have "eff_rel s1 s'" unfolding s'
    by (auto simp: eff_rel_refl eff_rel_start_animation split: option.splits)
  ultimately show ?thesis by (rule eff_rel_trans)
qed

lemma close_step_ok:
  assumes "parent s \<noteq> None"
  shows "\<exists>s'. close_step bl s = Inr s' \<and> parent s' \<noteq> None"
proof -
  obtain b l where bl: "bl = (b, l)" by (cases bl)
  from assms obtain p where p: "parent s = Some p" by blast
  have "\<exists>s'. close_step (b, l) s = Inr s'"
    by (cases "is_button s (Some b)") (simp_all add: then_do_def p)
  then obtain s' where s': "close_step bl s = Inr s'"
    unfolding bl by blast
  from close_step_rel [OF this] assms have "parent s' \<noteq> None"
    by (simp add: eff_rel_fields)
  with s' show ?thesis by blast
qed

lemma close_stack_result:
  assumes "close_stack s = Inr s'"
  shows "state s' = Close \<and> disabled s' \<and> dispatched s' = dispatched s @ [''on_close'']
     \<and> buttons s' = buttons s \<and> labels s' = labels s \<and> local_positions s' = local_positions s
     \<and> window_bound s' = window_bound s \<and> window_children s' = window_children s
     \<and> window s' = window s"
proof -
  let ?s0 = "start_animation On_window
                  \<lparr>a_props = [Size (window_size s)], a_d = closing_time s + 0.1,
                   a_t = ''linear''\<rparr> [Close_binding] None s"
  from assms obtain s1 where s1: "for_each close_step (zip (buttons s) (labels s)) ?s0 = Inr s1"
    and s': "s' = s1\<lparr>disabled := True, state := Close,
                           dispatched := dispatched s1 @ [''on_close'']\<rparr>"
    by (auto simp: close_stack_def then_do_def split: option.splits sum.splits)
  have r1: "eff_rel ?s0 s1"
    by (rule for_each_rel [where R = eff_rel, OF eff_rel_refl eff_rel_trans _ s1])
       (auto intro: close_step_rel)
  have r: "eff_rel s s1" using eff_rel_trans [OF eff_rel_start_animation r1] .
  have wc: "window_children s1 = window_children s"
  proof -
    have "window_children ?s0 = window_children s" by (simp add: start_animation_def)
    moreover have "window_children s1 = window_children ?s0"
      by (rule for_each_rel [where R = "\<lambda>a b. window_children b = window_children a", OF _ _ _ s1])
         (auto simp: then_do_def start_animation_def split: if_splits option.splits sum.splits)
    ultimately show ?thesis by simp
  qed
  show ?thesis unfolding s' using eff_rel_fields [OF r] wc by simp
qed

lemma close_stack_ok:
  assumes "window s \<noteq> None" "parent s \<noteq> None"
  shows "\<exists>s'. close_stack s = Inr s'"
proof -
  let ?s0 = "start_animation On_window
                  \<lparr>a_props = [Size (window_size s)], a_d = closing_time s + 0.1,
                   a_t = ''linear''\<rparr> [Close_binding] None s"
  have "parent ?s0 \<noteq> None" using assms(2) by (simp add: start_animation_def)
  from for_each_ok [where I = "\<lambda>s. parent s \<noteq> None" and f = close_step, OF this close_step_ok]
  obtain s1 where "for_each close_step (zip (buttons s) (labels s)) ?s0 = Inr s1" by blast
  with assms(1) show ?thesis
    by (auto simp: close_stack_def then_do_def)
qed

lemma cancel_labels_fold_rel:
  "eff_rel s (fold (\<lambda>l s'. case l of None \<Rightarrow> s'
                  | Some j \<Rightarrow> if is_label s' (Some j) then cancel_all j s' else s') ls s)"
proof (induction ls arbitrary: s)
  case Nil
  show ?case by (simp add: eff_rel_refl)
next
  case (Cons l ls)
  let ?s1 = "case l of None \<Rightarrow> s | Some j \<Rightarrow> if is_label s (Some j) then cancel_all j s else s"
  have "eff_rel s ?s1"
    by (auto simp: eff_rel_refl eff_rel_cancel_all split: option.splits)
  from eff_rel_trans [OF this Cons.IH [of ?s1]] show ?case by simp
qed

lemma cancel_labels_rel: "eff_rel s (cancel_labels s)"
  unfolding cancel_labels_def by (rule cancel_labels_fold_rel)

lemma loop_rel_refl: "loop_rel p p"
  by (simp add: loop_rel_def eff_rel_refl)

lemma loop_rel_trans: "loop_rel p q \<Longrightarrow> loop_rel q r \<Longrightarrow> loop_rel p r"
  unfolding loop_rel_def by (rule eff_rel_trans)

lemma set_center_y_class: "same_kind w (set_center_y v w)"
  by (simp add: set_center_y_def same_kind_def)

lemma open_step_rel:
  assumes "open_step tk ib p = Inr q"
  shows "loop_rel p q"
proof -
  obtain i b where ib: "ib = (i, b)" by (cases ib)
  obtain y abd ald s where p: "p = (y, abd, ald, s)" by (cases p)
  obtain y' abd' ald' s' where q: "q = (y', abd', ald', s')" by (cases q)
  show ?thesis
  proof (cases "is_button s (Some b)")
    case False
    with assms ib p q show ?thesis by (simp add: loop_rel_def eff_rel_refl)
  next
    case True
    define y1 where "y1 = y + dp tk 56 * direction_vals_v (stack_button_direction s)"
    have ne: "local_positions s \<noteq> []"
    proof
      assume "local_positions s = []"
      with assms ib p True show False
        by (simp add: then_do_def list_set_def Let_def)
    qed
    define s2 where "s2 = update_widget b (\<lambda>w. set_center_y (center_y w + y1) w) s"
    have r2: "eff_rel s s2" unfolding s2_def
      by (rule eff_rel_update_widget) (simp add: set_center_y_class)
    have "s' = s2 \<or> (\<exists>l. s' = update_widget l (set_center_y (center_y (heap s2 b))) s2)"
      using assms ib p q True ne
      by (auto simp: then_do_def Let_def s2_def y1_def split: if_splits option.splits)
    then have "eff_rel s2 s'"
      by (auto simp: eff_rel_refl intro!: eff_rel_update_widget set_center_y_class)
    with r2 show ?thesis unfolding loop_rel_def p q by (auto intro: eff_rel_trans)
  qed
qed

lemma open_step_ok:
  assumes "i < length (labels s)" "local_positions s \<noteq> []"
  shows "\<exists>q. open_step tk (i, b) (y, abd, ald, s) = Inr q"
  using assms
  by (auto simp: then_do_def Let_def update_widget_def split: option.splits)

lemma open_loop_rel:
  assumes "for_each (open_step tk) xs p = Inr q"
  shows "loop_rel p q"
  by (rule for_each_rel [where R = loop_rel, OF loop_rel_refl loop_rel_trans _ assms])
     (auto intro: open_step_rel)

lemma open_loop_ok:
  assumes "\<forall>ib\<in>set xs. fst ib < length (labels s)" "xs \<noteq> [] \<longrightarrow> local_positions s \<noteq> []"
  shows "\<exists>q. for_each (open_step tk) xs (y, abd, ald, s) = Inr q"
proof -
  let ?I = "\<lambda>p. (\<forall>ib\<in>set xs. fst ib < length (labels (snd (snd (snd p)))))
                \<and> (xs \<noteq> [] \<longrightarrow> local_positions (snd (snd (snd p))) \<noteq> [])"
  have step: "\<exists>q. open_step tk x p = Inr q \<and> ?I q" if "x \<in> set xs" "?I p" for x p
  proof -
    obtain i b where x: "x = (i, b)" by (cases x)
    obtain y abd ald s where p: "p = (y, abd, ald, s)" by (cases p)
    from that x p have "i < length (labels s)" "local_positions s \<noteq> []" by auto
    from open_step_ok [OF this] obtain q where q: "open_step tk x p = Inr q"
      unfolding x p by blast
    from open_step_rel [OF q] have "eff_rel s (snd (snd (snd q)))"
      by (simp add: loop_rel_def p)
    from eff_rel_fields(5,6) [OF this] that(2) p have "?I q" by simp
    with q show ?thesis by blast
  qed
  have "?I (y, abd, ald, s)" using assms by simp
  from for_each_ok [where I = ?I and f = "open_step tk", OF this step]
  show ?thesis by blast
qed

lemma add_widgets_step_eff: "add_widgets_step ib s = Inr s' \<Longrightarrow> eff_rel s s'"
proof -
  assume a: "add_widgets_step ib s = Inr s'"
  obtain i b where ib: "ib = (i, b)" by (cases ib)
  let ?s1 = "if is_button s (Some b) then add_widget b s else s"
  have r1: "eff_rel s ?s1" by (simp add: eff_rel_add_widget eff_rel_refl)
  have "s' = ?s1 \<or> (\<exists>l. s' = add_widget l ?s1)"
    using a ib by (auto simp: Let_def split: if_splits option.splits)
  then have "eff_rel ?s1 s'" by (auto simp: eff_rel_refl eff_rel_add_widget)
  with r1 show ?thesis by (rule eff_rel_trans)
qed

lemma add_widgets_eff: "add_widgets s = Inr s' \<Longrightarrow> eff_rel s s'"
  unfolding add_widgets_def
  by (rule for_each_rel [where R = eff_rel, OF eff_rel_refl eff_rel_trans])
     (auto intro: add_widgets_step_eff)

lemma enumerate_list_fst: "ib \<in> set (enumerate_list xs) \<Longrightarrow> fst ib < length xs"
  by (auto simp: enumerate_list_def in_set_zip)

lemma add_widgets_ok:
  assumes "length (buttons s) \<le> length (labels s)"
  shows "\<exists>s'. add_widgets s = Inr s'"
proof -
  let ?n = "length (buttons s)"
  let ?I = "\<lambda>t. ?n \<le> length (labels t)"
  have step: "\<exists>t'. add_widgets_step x t = Inr t' \<and> ?I t'"
    if "x \<in> set (enumerate_list (buttons s))" "?I t" for x t
  proof -
    obtain i b where x: "x = (i, b)" by (cases x)
    from that(1) x have i: "i < ?n" using enumerate_list_fst by fastforce
    have l1: "labels (if is_button t (Some b) then add_widget b t else t) = labels t"
      using eff_rel_fields(5) [OF eff_rel_add_widget] by simp
    from i that(2) have "\<exists>t'. add_widgets_step (i, b) t = Inr t'"
      by (simp add: Let_def l1 split: option.splits)
    then obtain t' where t': "add_widgets_step x t = Inr t'" unfolding x by blast
    from eff_rel_fields(5) [OF add_widgets_step_eff [OF t']] that(2) have "?I t'" by simp
    with t' show ?thesis by blast
  qed
  from for_each_ok [where I = ?I and f = add_widgets_step, OF assms step]
  show ?thesis unfolding add_widgets_def by blast
qed

lemma eff_rel_chains: "eff_rel s (s\<lparr>chains := ch\<rparr>)"
  by (rule eff_relI [where h = "heap s" and c = "window_children s" and a = "animations s"])
     (simp_all add: same_kind_refl)

lemma animation_open_stack_rel:
  assumes "animation_open_stack c s = Inr s'"
  shows "eff_rel s s'"
proof (cases "c < length (chains s)")
  case False
  with assms show ?thesis by (simp add: animation_open_stack_def eff_rel_refl)
next
  case True
  obtain ws ad where ch: "chains s ! c = (ws, ad)" by (cases "chains s ! c")
  show ?thesis
  proof (cases ws)
    case Nil
    with assms True ch show ?thesis by (simp add: animation_open_stack_def eff_rel_refl)
  next
    case (Cons w rest)
    with assms True ch obtain a where
      "s' = start_animation (On_widget w) a [] (Some c) (s\<lparr>chains := (chains s)[c := (rest, ad)]\<rparr>)"
      by (auto simp: animation_open_stack_def split: option.splits)
    then show ?thesis
      using eff_rel_trans [OF eff_rel_chains eff_rel_start_animation] by simp
  qed
qed

lemma map_of_fst_hd: "ad \<noteq> [] \<Longrightarrow> map_of ad (fst (hd ad)) = Some (snd (hd ad))"
  by (cases ad) auto

lemma animation_open_stack_fresh_ok:
  "\<exists>s'. animation_open_stack (length (chains s))
           (s\<lparr>chains := chains s @ [(map fst ad, ad)]\<rparr>) = Inr s'"
proof (cases ad)
  case Nil
  then show ?thesis by (simp add: animation_open_stack_def)
next
  case (Cons x xs)
  then show ?thesis by (cases x) (simp add: animation_open_stack_def)
qed

lemma do_animation_open_stack_rel:
  assumes "do_animation_open_stack ad s = Inr s'"
  shows "eff_rel s s'"
proof -
  let ?s0 = "start_animation On_window
                  \<lparr>a_props = [Size (window_size s)], a_d = opening_time s, a_t = ''linear''\<rparr>
                  [Open_binding] None s"
  from assms obtain s1 where s1: "add_widgets ?s0 = Inr s1"
    and s': "animation_open_stack (length (chains s1))
                     (s1\<lparr>chains := chains s1 @ [(map fst ad, ad)]\<rparr>) = Inr s'"
    by (auto simp: do_animation_open_stack_def then_do_def split: option.splits sum.splits)
  show ?thesis
    using eff_rel_trans [OF eff_rel_start_animation
        eff_rel_trans [OF add_widgets_eff [OF s1]
          eff_rel_trans [OF eff_rel_chains animation_open_stack_rel [OF s']]]] .
qed

lemma do_animation_open_stack_ok:
  assumes "window s \<noteq> None" "length (buttons s) \<le> length (labels s)"
  shows "\<exists>s'. do_animation_open_stack ad s = Inr s'"
proof -
  let ?s0 = "start_animation On_window
                  \<lparr>a_props = [Size (window_size s)], a_d = opening_time s, a_t = ''linear''\<rparr>
                  [Open_binding] None s"
  have "length (buttons ?s0) \<le> length (labels ?s0)" using assms(2)
    by (simp add: start_animation_def)
  from add_widgets_ok [OF this] obtain s1 where s1: "add_widgets ?s0 = Inr s1" by blast
  from animation_open_stack_fresh_ok [of s1 ad] obtain s' where
    "animation_open_stack (length (chains s1))
                     (s1\<lparr>chains := chains s1 @ [(map fst ad, ad)]\<rparr>) = Inr s'" by blast
  with s1 assms(1) show ?thesis
    by (auto simp: do_animation_open_stack_def then_do_def)
qed

text \<open>The state just before the two calls of do_animation_open_stack.\<close>

lemma open_stack_unfold:
  assumes "state s \<noteq> Open" "open_stack tk s = Inr s'"
  shows "\<exists>s5 s6. opened s s5
    \<and> do_animation_open_stack (anim_buttons_data s5) s5 = Inr s6
    \<and> do_animation_open_stack (anim_labels_data s6) s6 = Inr s'"
proof -
  let ?s0 = "cancel_labels s"
  let ?s1 = "?s0\<lparr>window := root_window ?s0\<rparr>"
  have st: "state ?s0 \<noteq> Open" using assms(1) eff_rel_fields(1) [OF cancel_labels_rel [of s]] by simp
  from assms(2) st obtain q where q:
    "for_each (open_step tk) (enumerate_list (buttons ?s1))
             (30 * direction_vals_v (stack_button_direction ?s1), [], [], ?s1) = Inr q"
    by (auto simp: open_stack_def Let_def then_do_def split: sum.splits)
  obtain y abd ald s2 where qq: "q = (y, abd, ald, s2)" by (cases q)
  from open_loop_rel [OF q] have r: "eff_rel ?s1 s2" by (simp add: loop_rel_def qq)
  define s5 where "s5 = (let s3 = (if abd \<noteq> [] then s2\<lparr>anim_buttons_data := abd\<rparr> else s2);
                 s4 = (if ald \<noteq> [] \<and> \<not> hint_animation s3
                       then s3\<lparr>anim_labels_data := ald\<rparr> else s3)
             in s4\<lparr>disabled := False, state := Open,
                    dispatched := dispatched s4 @ [''on_open'']\<rparr>)"
  have o: "opened s s5" unfolding opened_def using r s5_def by blast
  have eq: "open_stack tk s = then_do (do_animation_open_stack (anim_buttons_data s5) s5)
                  (\<lambda>s6. do_animation_open_stack (anim_labels_data s6) s6)"
    using st q unfolding open_stack_def Let_def qq s5_def
    by (simp add: then_do_def)
  with assms(2) obtain s6 where "do_animation_open_stack (anim_buttons_data s5) s5 = Inr s6"
    "do_animation_open_stack (anim_labels_data s6) s6 = Inr s'"
    by (auto simp: then_do_def split: sum.splits)
  with o show ?thesis by blast
qed

lemma opened_fields:
  assumes "opened s s5"
  shows "state s5 = Open" "\<not> disabled s5" "dispatched s5 = dispatched s @ [''on_open'']"
    "buttons s5 = buttons s" "labels s5 = labels s" "local_positions s5 = local_positions s"
    "window s5 = root_window s" "window_bound s5 = window_bound s" "parent s5 = parent s"
proof -
  from assms obtain s2 abd ald where
    r: "eff_rel ((cancel_labels s)\<lparr>window := root_window (cancel_labels s)\<rparr>) s2"
    and s5: "s5 = (let s3 = (if abd \<noteq> [] then s2\<lparr>anim_buttons_data := abd\<rparr> else s2);
                 s4 = (if ald \<noteq> [] \<and> \<not> hint_animation s3
                       then s3\<lparr>anim_labels_data := ald\<rparr> else s3)
             in s4\<lparr>disabled := False, state := Open,
                    dispatched := dispatched s4 @ [''on_open'']\<rparr>)"
    unfolding opened_def by blast
  note f = eff_rel_fields [OF r] eff_rel_fields [OF cancel_labels_rel [of s]]
  show "state s5 = Open" "\<not> disabled s5" "dispatched s5 = dispatched s @ [''on_open'']"
    "buttons s5 = buttons s" "labels s5 = labels s" "local_positions s5 = local_positions s"
    "window s5 = root_window s" "window_bound s5 = window_bound s" "parent s5 = parent s"
    unfolding s5 Let_def using f by simp_all
qed

lemma open_stack_result:
  assumes "state s \<noteq> Open" "open_stack tk s = Inr s'"
  shows "state s' = Open \<and> \<not> disabled s' \<and> dispatched s' = dispatched s @ [''on_open'']
    \<and> buttons s' = buttons s \<and> labels s' = labels s \<and> local_positions s' = local_positions s
    \<and> window s' = root_window s \<and> window_bound s' = window_bound s \<and> parent s' = parent s"
proof -
  from open_stack_unfold [OF assms] obtain s5 s6 where o: "opened s s5"
    and a: "do_animation_open_stack (anim_buttons_data s5) s5 = Inr s6"
    and b: "do_animation_open_stack (anim_labels_data s6) s6 = Inr s'" by blast
  have r: "eff_rel s5 s'"
    using eff_rel_trans [OF do_animation_open_stack_rel [OF a] do_animation_open_stack_rel [OF b]] .
  show ?thesis using eff_rel_fields [OF r] opened_fields [OF o] by simp
qed

lemma open_stack_open:
  assumes "state s = Open"
  shows "open_stack tk s = close_stack (cancel_labels s)"
  using assms eff_rel_fields(1) [OF cancel_labels_rel [of s]]
  by (simp add: open_stack_def Let_def)

lemma open_stack_ok:
  assumes "state s \<noteq> Open" "root_window s \<noteq> None" "aligned s"
  shows "\<exists>s'. open_stack tk s = Inr s'"
proof -
  let ?s0 = "cancel_labels s"
  let ?s1 = "?s0\<lparr>window := root_window ?s0\<rparr>"
  note f0 = eff_rel_fields [OF cancel_labels_rel [of s]]
  have st: "state ?s0 \<noteq> Open" using assms(1) f0 by simp
  have len: "length (labels ?s1) = length (buttons ?s1)"
    "length (local_positions ?s1) = length (buttons ?s1)"
    using assms(3) f0 by (simp_all add: aligned_def)
  have "\<forall>ib\<in>set (enumerate_list (buttons ?s1)). fst ib < length (labels ?s1)"
    using enumerate_list_fst len(1) by fastforce
  moreover have "enumerate_list (buttons ?s1) \<noteq> [] \<longrightarrow> local_positions ?s1 \<noteq> []"
    using len(2) by (auto simp: enumerate_list_def)
  ultimately obtain q where q:
    "for_each (open_step tk) (enumerate_list (buttons ?s1))
             (30 * direction_vals_v (stack_button_direction ?s1), [], [], ?s1) = Inr q"
    using open_loop_ok by blast
  obtain y abd ald s2 where qq: "q = (y, abd, ald, s2)" by (cases q)
  from open_loop_rel [OF q] have r: "eff_rel ?s1 s2" by (simp add: loop_rel_def qq)
  define s5 where "s5 = (let s3 = (if abd \<noteq> [] then s2\<lparr>anim_buttons_data := abd\<rparr> else s2);
                 s4 = (if ald \<noteq> [] \<and> \<not> hint_animation s3
                       then s3\<lparr>anim_labels_data := ald\<rparr> else s3)
             in s4\<lparr>disabled := False, state := Open,
                    dispatched := dispatched s4 @ [''on_open'']\<rparr>)"
  have o: "opened s s5" unfolding opened_def using r s5_def by blast
  have eq: "open_stack tk s = then_do (do_animation_open_stack (anim_buttons_data s5) s5)
                  (\<lambda>s6. do_animation_open_stack (anim_labels_data s6) s6)"
    using st q unfolding open_stack_def Let_def qq s5_def
    by (simp add: then_do_def)
  note f5 = opened_fields [OF o]
  have "window s5 \<noteq> None" "length (buttons s5) \<le> length (labels s5)"
    using f5 assms by (simp_all add: aligned_def)
  from do_animation_open_stack_ok [OF this] obtain s6 where
    s6: "do_animation_open_stack (anim_buttons_data s5) s5 = Inr s6" by blast
  note f6 = eff_rel_fields [OF do_animation_open_stack_rel [OF s6]]
  have "window s6 \<noteq> None" "length (buttons s6) \<le> length (labels s6)"
    using f5 f6 assms by (simp_all add: aligned_def)
  from do_animation_open_stack_ok [OF this] obtain s' where
    "do_animation_open_stack (anim_labels_data s6) s6 = Inr s'" by blast
  with s6 eq show ?thesis by (simp add: then_do_def)
qed

subsection \<open>Adding widgets\<close>

lemma add_rel_refl: "add_rel s s"
  by (simp add: add_rel_def)

lemma add_rel_trans: "add_rel s s' \<Longrightarrow> add_rel s' s'' \<Longrightarrow> add_rel s s''"
  by (auto simp: add_rel_def)

lemma add_widget_rel: "add_rel s (add_widget w s)"
  by (auto simp: add_rel_def add_widget_def window_add_widget_def update_widget_def)

lemma add_widget_parented:
  "window s \<noteq> None \<Longrightarrow> w_parent (heap (add_widget w s) w)"
  by (simp add: add_widget_def window_add_widget_def update_widget_def)

lemma add_widget_noop:
  "window s = None \<or> w_parent (heap s w) \<Longrightarrow> add_widget w s = s"
  by (auto simp: add_widget_def)

lemma add_widget_children:
  "window_children (add_widget w s) =
     (if window s \<noteq> None \<and> \<not> w_parent (heap s w) then w # window_children s
      else window_children s)"
  by (simp add: add_widget_def window_add_widget_def update_widget_def)

lemma add_rel_class:
  "add_rel s s' \<Longrightarrow> is_button s' w = is_button s w \<and> is_label s' w = is_label s w"
  by (simp add: add_rel_def is_button_def is_label_def split: option.splits)

text \<open>What one step of the loop has done when it returns.\<close>

lemma add_widgets_step_rel:
  assumes "add_widgets_step (i, b) s = Inr s'"
  shows "add_rel s s' \<and> step_done s s' (i, b)"
proof -
  let ?s1 = "if is_button s (Some b) then add_widget b s else s"
  have r1: "add_rel s ?s1" by (simp add: add_widget_rel add_rel_refl)
  have lab: "labels ?s1 = labels s" and w1: "window ?s1 = window s"
    using r1 by (simp_all add: add_rel_def)
  have i: "i < length (labels s)" using assms lab
    by (auto simp: Let_def split: if_splits)
  have s': "s' = (case labels s ! i of None \<Rightarrow> ?s1
                 | Some l \<Rightarrow> if is_label ?s1 (Some l) then add_widget l ?s1 else ?s1)"
    using assms i lab by (auto simp: Let_def split: if_splits option.splits)
  have r2: "add_rel ?s1 s'" unfolding s'
    by (simp add: add_widget_rel add_rel_refl split: option.splits)
  have r: "add_rel s s'" using add_rel_trans [OF r1 r2] .
  have "step_done s s' (i, b)"
  proof (cases "window s = None")
    case True
    with i show ?thesis by (simp add: step_done_def)
  next
    case False
    have pb: "is_button s (Some b) \<Longrightarrow> w_parent (heap s' b)"
    proof -
      assume "is_button s (Some b)"
      with False have "w_parent (heap ?s1 b)" by (simp add: add_widget_parented)
      with r2 show ?thesis unfolding add_rel_def by blast
    qed
    have pl: "labels s ! i = Some l \<Longrightarrow> is_label s (Some l) \<Longrightarrow> w_parent (heap s' l)" for l
    proof -
      assume l: "labels s ! i = Some l" "is_label s (Some l)"
      have "is_label ?s1 (Some l)" using add_rel_class [OF r1, of "Some l"] l(2) by simp
      with l(1) have "s' = add_widget l ?s1" unfolding s' by simp
      moreover have "window ?s1 \<noteq> None" using w1 False by simp
      ultimately show ?thesis using add_widget_parented [of ?s1 l] by simp
    qed
    from i pb pl show ?thesis unfolding step_done_def by auto
  qed
  with r show ?thesis by simp
qed

lemma step_done_mono:
  "step_done s s1 ib \<Longrightarrow> add_rel s1 s2 \<Longrightarrow> step_done s s2 ib"
  by (auto simp: step_done_def add_rel_def)

lemma step_done_shift:
  "add_rel s s1 \<Longrightarrow> step_done s1 s2 ib \<Longrightarrow> step_done s s2 ib"
  using add_rel_class [of s s1]
  by (auto simp: step_done_def add_rel_def)

lemma for_each_add_rel:
  "for_each add_widgets_step xs s = Inr s' \<Longrightarrow>
   add_rel s s' \<and> (\<forall>ib\<in>set xs. step_done s s' ib)"
proof (induction xs arbitrary: s)
  case Nil
  then show ?case by (simp add: add_rel_refl)
next
  case (Cons x xs)
  obtain i b where x: "x = (i, b)" by (cases x)
  from Cons.prems x obtain s1 where s1: "add_widgets_step (i, b) s = Inr s1"
    "for_each add_widgets_step xs s1 = Inr s'"
    by (auto split: sum.splits)
  from add_widgets_step_rel [OF s1(1)] have a: "add_rel s s1" "step_done s s1 (i, b)" by simp_all
  from Cons.IH [OF s1(2)] have b: "add_rel s1 s'" "\<forall>ib\<in>set xs. step_done s1 s' ib" by simp_all
  show ?case using a b x
    by (auto intro: add_rel_trans step_done_mono step_done_shift)
qed

lemma add_widgets_step_settled:
  assumes "step_done s s (i, b)"
  shows "add_widgets_step (i, b) s = Inr s"
proof -
  have i: "i < length (labels s)" using assms by (simp add: step_done_def)
  have b: "is_button s (Some b) \<Longrightarrow> add_widget b s = s"
    using assms by (auto simp: step_done_def intro: add_widget_noop)
  have l: "labels s ! i = Some l \<Longrightarrow> is_label s (Some l) \<Longrightarrow> add_widget l s = s" for l
    using assms by (auto simp: step_done_def intro: add_widget_noop)
  have s1: "(if is_button s (Some b) then add_widget b s else s) = s"
    using b by simp
  show ?thesis
    unfolding add_widgets_step.simps s1 Let_def using i l
    by (simp split: option.splits)
qed

lemma for_each_settled:
  "\<forall>ib\<in>set xs. step_done s s ib \<Longrightarrow> for_each add_widgets_step xs s = Inr s"
proof (induction xs)
  case Nil
  then show ?case by simp
next
  case (Cons x xs)
  obtain i b where x: "x = (i, b)" by (cases x)
  from Cons.prems x have "step_done s s (i, b)" by simp
  then have "add_widgets_step (i, b) s = Inr s" by (rule add_widgets_step_settled)
  with Cons x show ?case by (simp del: add_widgets_step.simps)
qed

lemma add_widgets_twice:
  assumes "add_widgets s = Inr s1"
  shows "add_widgets s1 = Inr s1"
proof -
  from assms have a: "add_rel s s1" "\<forall>ib\<in>set (enumerate_list (buttons s)). step_done s s1 ib"
    using for_each_add_rel [of "enumerate_list (buttons s)" s s1]
    by (simp_all add: add_widgets_def)
  have "\<forall>ib\<in>set (enumerate_list (buttons s1)). step_done s1 s1 ib"
  proof
    fix ib assume "ib \<in> set (enumerate_list (buttons s1))"
    with a have "step_done s s1 ib" by (simp add: add_rel_def)
    with a(1) add_rel_class [OF a(1)] show "step_done s1 s1 ib"
      by (auto simp: step_done_def add_rel_def)
  qed
  then show ?thesis unfolding add_widgets_def by (rule for_each_settled)
qed

lemma add_widget_children_ok:
  "children_ok s \<Longrightarrow> children_ok (add_widget w s)"
  by (auto simp: children_ok_def add_widget_def window_add_widget_def update_widget_def list_all_iff)

lemma for_each_add_children_ok:
  "children_ok s \<Longrightarrow> for_each add_widgets_step xs s = Inr s' \<Longrightarrow> children_ok s'"
proof (induction xs arbitrary: s)
  case Nil
  then show ?case by simp
next
  case (Cons x xs)
  obtain i b where x: "x = (i, b)" by (cases x)
  from Cons.prems x obtain s1 where s1: "add_widgets_step (i, b) s = Inr s1"
    "for_each add_widgets_step xs s1 = Inr s'"
    by (auto split: sum.splits)
  have "children_ok s1" using s1(1) Cons.prems(1)
    by (auto simp: Let_def add_widget_children_ok split: if_splits option.splits)
  from Cons.IH [OF this s1(2)] show ?case .
qed

subsection \<open>More of the concrete stack\<close>

lemma built_tk1_data1_fields:
  "\<exists>s. built tk1 data1 = Inr s \<and> state s = Close \<and> root_window s = Some Window
     \<and> parent s = Some (root1\<lparr>p_bound := {(''on_release'', Open_stack)}\<rparr>)
     \<and> dispatched s = [] \<and> window s = None \<and> window_children s = []
     \<and> window_bound s = {(''on_resize'', Update_pos_buttons), (''on_maximize'', Update_pos_buttons),
                      (''on_restore'', Update_pos_buttons), (''on_draw'', Update_pos_buttons)}
     \<and> touch_started_inside s = None \<and> auto_dismiss s"
  by (simp add: build_defs Let_def insert_commute)

lemma built_tk1_data1_parents:
  "\<exists>s. built tk1 data1 = Inr s \<and> \<not> w_parent (heap s 0) \<and> \<not> w_parent (heap s 1)
     \<and> \<not> w_parent (heap s 2)"
  by (simp add: build_defs Let_def)

subsection \<open>The open/close state machine\<close>

text \<open>
  C2. \<^verbatim>\<open>open_stack\<close> on an open stack is \<^verbatim>\<open>close_stack\<close> (after the animations of the
  labels are cancelled). Whenever \<^verbatim>\<open>close_stack\<close> returns, the state is \<^verbatim>\<open>close\<close>,
  \<^verbatim>\<open>disabled\<close> is true and \<^verbatim>\<open>on_close\<close> is the event dispatched last; it returns whenever
  the window reference and the parent are set. Whenever \<^verbatim>\<open>open_stack\<close> returns on a stack
  that is not open, the state is \<^verbatim>\<open>open\<close>, \<^verbatim>\<open>disabled\<close> is false and \<^verbatim>\<open>on_open\<close> is the
  event dispatched last; it returns whenever the object is in a window and its sequences
  are aligned.
\<close>

theorem open_close_state_machine:
  "(state s = Open \<longrightarrow> open_stack tk s = close_stack (cancel_labels s))
   \<and> (\<forall>s'. close_stack s = Inr s' \<longrightarrow>
         state s' = Close \<and> disabled s' \<and> dispatched s' = dispatched s @ [''on_close''])
   \<and> (window s \<noteq> None \<and> parent s \<noteq> None \<longrightarrow> (\<exists>s'. close_stack s = Inr s'))
   \<and> (\<forall>s'. state s \<noteq> Open \<and> open_stack tk s = Inr s' \<longrightarrow>
         state s' = Open \<and> \<not> disabled s' \<and> dispatched s' = dispatched s @ [''on_open''])
   \<and> (state s \<noteq> Open \<and> root_window s \<noteq> None \<and> aligned s \<longrightarrow>
         (\<exists>s'. open_stack tk s = Inr s'))"
proof (intro conjI allI impI)
  assume "state s = Open"
  then show "open_stack tk s = close_stack (cancel_labels s)" by (rule open_stack_open)
next
  fix s' assume a: "close_stack s = Inr s'"
  from close_stack_result [OF a] show "state s' = Close" "disabled s'"
    "dispatched s' = dispatched s @ [''on_close'']" by simp_all
next
  assume "window s \<noteq> None \<and> parent s \<noteq> None"
  then show "\<exists>s'. close_stack s = Inr s'" using close_stack_ok by blast
next
  fix s' assume a: "state s \<noteq> Open \<and> open_stack tk s = Inr s'"
  then have "state s \<noteq> Open" "open_stack tk s = Inr s'" by simp_all
  from open_stack_result [OF this] show "state s' = Open" "\<not> disabled s'"
    "dispatched s' = dispatched s @ [''on_open'']" by simp_all
next
  assume "state s \<noteq> Open \<and> root_window s \<noteq> None \<and> aligned s"
  then show "\<exists>s'. open_stack tk s = Inr s'" using open_stack_ok by blast
qed

theorem open_close_state_machine_witness:
  "state (state_of (built tk1 data1)) \<noteq> Open
   \<and> root_window (state_of (built tk1 data1)) \<noteq> None
   \<and> aligned (state_of (built tk1 data1))
   \<and> (\<exists>s1. open_stack tk1 (state_of (built tk1 data1)) = Inr s1
         \<and> state s1 = Open \<and> \<not> disabled s1 \<and> dispatched s1 = [''on_open'']
         \<and> window s1 \<noteq> None \<and> parent s1 \<noteq> None
         \<and> (\<exists>s2. open_stack tk1 s1 = Inr s2 \<and> state s2 = Close \<and> disabled s2
               \<and> dispatched s2 = [''on_open'', ''on_close'']))"
proof -
  let ?s0 = "state_of (built tk1 data1)"
  from built_tk1_data1_fields obtain s where s: "built tk1 data1 = Inr s" "state s = Close"
    "root_window s = Some Window" "parent s = Some (root1\<lparr>p_bound := {(''on_release'', Open_stack)}\<rparr>)"
    "dispatched s = []" by blast
  then have f0: "?s0 = s" by (simp add: state_of_def)
  have h: "state ?s0 \<noteq> Open" "root_window ?s0 \<noteq> None" "aligned ?s0"
    using s f0 built_tk1_data1_aligned by simp_all
  note m0 = open_close_state_machine [of ?s0 tk1]
  from m0 h have "\<exists>s'. open_stack tk1 ?s0 = Inr s'" by simp
  then obtain s1 where s1: "open_stack tk1 ?s0 = Inr s1" by blast
  from m0 h(1) s1 have "state s1 = Open \<and> \<not> disabled s1
      \<and> dispatched s1 = dispatched ?s0 @ [''on_open'']" by blast
  then have r1: "state s1 = Open" "\<not> disabled s1" "dispatched s1 = [''on_open'']"
    using s f0 by simp_all
  from open_stack_result [OF h(1) s1] have w1: "window s1 \<noteq> None" "parent s1 \<noteq> None"
    using s f0 by simp_all
  let ?c = "cancel_labels s1"
  note fc = eff_rel_fields [OF cancel_labels_rel [of s1]]
  note m1 = open_close_state_machine [of ?c tk1]
  have "window ?c \<noteq> None \<and> parent ?c \<noteq> None" using w1 fc by simp
  with m1 have "\<exists>s'. close_stack ?c = Inr s'" by blast
  then obtain s2 where s2: "close_stack ?c = Inr s2" by blast
  with m1 have "state s2 = Close \<and> disabled s2 \<and> dispatched s2 = dispatched ?c @ [''on_close'']"
    by blast
  then have r2: "state s2 = Close" "disabled s2" "dispatched s2 = [''on_open'', ''on_close'']"
    using fc r1 by simp_all
  from open_close_state_machine [of s1 tk1] r1(1) s2 have "open_stack tk1 s1 = Inr s2" by simp
  with h s1 r1 w1 r2 show ?thesis by blast
qed

subsection \<open>The offsets of an opening stack\<close>

text \<open>
  C4. The stack built from the two-entry dictionary is opened. The store
  \<^verbatim>\<open>self._local_positions[i] = y\<close> is guarded by \<^verbatim>\<open>if not self._local_positions\<close>, which
  is false for the non-empty sequence the rebuild left: the local positions are
  \<open>[0, 0]\<close> before and after \<^verbatim>\<open>open_stack\<close>, and \<^verbatim>\<open>set_pos_bottom_buttons\<close> then puts
  button 0 at the centre of the parent, 300, not 86 above it.
\<close>

lemma center_y_set_center_y: "center_y (set_center_y v w) = v"
  by (simp add: center_y_def set_center_y_def)

theorem open_stack_stores_no_offset:
  "\<exists>s1. open_stack tk1 (state_of (built tk1 data1)) = Inr s1
     \<and> local_positions (state_of (built tk1 data1)) = [0, 0]
     \<and> local_positions s1 = [0, 0]
     \<and> (\<exists>s2. set_pos_bottom_buttons 0 s1 = Inr s2 \<and> center_y (heap s2 0) = 300)
     \<and> 30 + (0 + 1) * dp tk1 56 = 86"
proof -
  let ?s0 = "state_of (built tk1 data1)"
  from built_tk1_data1_fields obtain s where s: "built tk1 data1 = Inr s" "state s = Close"
    "root_window s = Some Window" "parent s = Some (root1\<lparr>p_bound := {(''on_release'', Open_stack)}\<rparr>)"
    by blast
  from built_tk1_data1 s(1) have l: "buttons s = [0, 2]" "local_positions s = [0, 0]" by auto
  from s have f0: "?s0 = s" by (simp add: state_of_def)
  have h: "state ?s0 \<noteq> Open" "root_window ?s0 \<noteq> None" "aligned ?s0"
    using s f0 built_tk1_data1_aligned by simp_all
  from open_stack_ok [OF h] obtain s1 where s1: "open_stack tk1 ?s0 = Inr s1" by blast
  from open_stack_result [OF h(1) s1] have r: "local_positions s1 = [0, 0]" "buttons s1 = [0, 2]"
    "parent s1 = Some (root1\<lparr>p_bound := {(''on_release'', Open_stack)}\<rparr>)"
    using s l f0 by simp_all
  have "\<exists>s2. set_pos_bottom_buttons 0 s1 = Inr s2 \<and> center_y (heap s2 0) = 300"
    using r by (simp add: set_pos_bottom_buttons_def update_widget_def Let_def
        center_y_set_center_y root1_def)
  with s1 r l f0 show ?thesis by (simp add: tk1_def)
qed


subsection \<open>Adding the widgets twice\<close>

text \<open>
  C10. \<^verbatim>\<open>add_widget\<close> puts a widget in the window only when the window reference is set
  and the widget has no parent, and leaves the state as it is for a widget that has
  one. A second \<^verbatim>\<open>add_widgets\<close> changes nothing, and the children of the window stay
  distinct, so that no widget is among them twice.
\<close>

theorem add_widgets_idempotent:
  "window_children (add_widget w s) =
     (if window s \<noteq> None \<and> \<not> w_parent (heap s w) then w # window_children s
      else window_children s)
   \<and> (w_parent (heap s w) \<longrightarrow> add_widget w s = s)
   \<and> (\<forall>s1. add_widgets s = Inr s1 \<longrightarrow> add_widgets s1 = Inr s1)
   \<and> (\<forall>s1. children_ok s \<and> add_widgets s = Inr s1 \<longrightarrow> children_ok s1)"
proof (intro conjI allI impI)
  show "window_children (add_widget w s) =
     (if window s \<noteq> None \<and> \<not> w_parent (heap s w) then w # window_children s
      else window_children s)" by (rule add_widget_children)
next
  assume "w_parent (heap s w)"
  then show "add_widget w s = s" by (simp add: add_widget_noop)
next
  fix s1 assume "add_widgets s = Inr s1"
  then show "add_widgets s1 = Inr s1" by (rule add_widgets_twice)
next
  fix s1 assume "children_ok s \<and> add_widgets s = Inr s1"
  then show "children_ok s1"
    using for_each_add_children_ok [of s "enumerate_list (buttons s)" s1]
    by (simp add: add_widgets_def)
qed

theorem add_widgets_idempotent_witness:
  "children_ok ((state_of (built tk1 data1))\<lparr>window := Some Window\<rparr>)
   \<and> (\<exists>s1. add_widgets ((state_of (built tk1 data1))\<lparr>window := Some Window\<rparr>) = Inr s1
         \<and> window_children s1 = [2, 1, 0]
         \<and> add_widgets s1 = Inr s1 \<and> children_ok s1
         \<and> w_parent (heap s1 2) \<and> add_widget 2 s1 = s1)"
proof -
  let ?s0 = "(state_of (built tk1 data1))\<lparr>window := Some Window\<rparr>"
  from built_tk1_data1_fields obtain s where s: "built tk1 data1 = Inr s"
    "window_children s = []" by blast
  from built_tk1_data1 s(1) have l: "buttons s = [0, 2]" "labels s = [Some 1, None]"
    "w_class (heap s 0) = MDFloatingBottomButton" "w_class (heap s 1) = MDFloatingLabel"
    "w_class (heap s 2) = MDFloatingBottomButton" by auto
  from built_tk1_data1_parents s(1) have p: "\<not> w_parent (heap s 0)" "\<not> w_parent (heap s 1)"
    "\<not> w_parent (heap s 2)" by auto
  from s have f0: "?s0 = s\<lparr>window := Some Window\<rparr>" by (simp add: state_of_def)
  have c0: "children_ok ?s0" using s f0 by (simp add: children_ok_def)
  have "\<exists>s1. add_widgets ?s0 = Inr s1 \<and> window_children s1 = [2, 1, 0] \<and> w_parent (heap s1 2)"
    unfolding f0 using l p s(2)
    by (simp add: add_widgets_def enumerate_list_def upt_rec [of 0] upt_rec [of 1] upt_rec [of 2]
        Let_def is_button_def is_label_def add_widget_def window_add_widget_def update_widget_def)
  then obtain s1 where s1: "add_widgets ?s0 = Inr s1" "window_children s1 = [2, 1, 0]"
    "w_parent (heap s1 2)" by blast
  note m = add_widgets_idempotent [of 2 s1]
  note m0 = add_widgets_idempotent [of 2 ?s0]
  from m0 s1(1) have "add_widgets s1 = Inr s1" by blast
  moreover from m0 c0 s1(1) have "children_ok s1" by blast
  moreover from m s1(3) have "add_widget 2 s1 = s1" by blast
  ultimately show ?thesis using c0 s1 by blast
qed

subsection \<open>The opened stack\<close>

lemmas open_defs = open_stack_def cancel_labels_def cancel_all_def
  list_set_def center_y_def do_animation_open_stack_def add_widgets_def
  add_widget_def window_add_widget_def animation_open_stack_def start_animation_def

lemma opened_tk1_data1:
  "\<exists>s. fire tk1 Release_parent (state_of (built tk1 data1)) = Inr s \<and> state s = Open
     \<and> labels s = [Some 1, None] \<and> buttons s = [0, 2] \<and> local_positions s = [0, 0]
     \<and> window_children s = [2, 1, 0]
     \<and> w_class (heap s 0) = MDFloatingBottomButton \<and> w_class (heap s 1) = MDFloatingLabel
     \<and> w_class (heap s 2) = MDFloatingBottomButton
     \<and> window s = Some Window \<and> auto_dismiss s \<and> touch_started_inside s = None
     \<and> forwarded s = []
     \<and> parent s = Some (root1\<lparr>p_bound := {(''on_release'', Open_stack)}\<rparr>)
     \<and> length (animations s) = 4
     \<and> r_target (animations s ! 0) = On_window
     \<and> r_on_complete (animations s ! 0) = [Open_binding]
     \<and> a_props (r_anim (animations s ! 0)) = [Size (800, 600)]"
  by (simp add: build_defs open_defs Let_def upt_rec [of 0] upt_rec [of 1] upt_rec [of 2])

lemma collide_list_none:
  "None \<in> set ws \<Longrightarrow> collide_list h ws t = Inl AttributeError"
proof (induction ws)
  case Nil
  then show ?case by simp
next
  case (Cons w ws)
  then show ?case by (cases w) (auto simp: then_do_def)
qed

lemma collide_list_some:
  "None \<notin> set ws \<Longrightarrow>
   collide_list h ws t = Inr (map (\<lambda>w. case w of None \<Rightarrow> False | Some i \<Rightarrow> collide_point (h i) t) ws)"
proof (induction ws)
  case Nil
  then show ?case by simp
next
  case (Cons w ws)
  then show ?case by (cases w) (auto simp: then_do_def)
qed

lemma touch_down_none:
  "None \<in> set (labels s) \<Longrightarrow> touch_down t s = Inl AttributeError"
  by (simp add: touch_down_def collide_list_none then_do_def)

lemma bound_tk1_data1:
  "\<exists>s. run tk1 [Release_parent, Complete 0] (state_of (built tk1 data1)) = Inr s \<and> state s = Open
     \<and> labels s = [Some 1, None] \<and> touch_handlers \<subseteq> window_bound s
     \<and> window s = Some Window \<and> auto_dismiss s \<and> touch_started_inside s = None
     \<and> forwarded s = [] \<and> parent s \<noteq> None"
proof -
  from opened_tk1_data1 obtain s where s:
    "fire tk1 Release_parent (state_of (built tk1 data1)) = Inr s" "state s = Open"
    "labels s = [Some 1, None]" "window s = Some Window" "auto_dismiss s"
    "touch_started_inside s = None" "forwarded s = []" "length (animations s) = 4"
    "r_target (animations s ! 0) = On_window" "r_on_complete (animations s ! 0) = [Open_binding]"
    "a_props (r_anim (animations s ! 0)) = [Size (800, 600)]"
    "parent s = Some (root1\<lparr>p_bound := {(''on_release'', Open_stack)}\<rparr>)" by blast
  have "\<exists>s'. fire tk1 (Complete 0) s = Inr s' \<and> state s' = Open
     \<and> labels s' = [Some 1, None] \<and> touch_handlers \<subseteq> window_bound s'
     \<and> window s' = Some Window \<and> auto_dismiss s' \<and> touch_started_inside s' = None
     \<and> forwarded s' = [] \<and> parent s' \<noteq> None"
    using s(2-) by (simp add: Let_def open_binding_def)
  with s(1) show ?thesis by (auto simp: run_def)
qed


lemma touch_down_some:
  assumes "None \<notin> set (labels s)" "window s \<noteq> None"
  shows "\<exists>s'. touch_down t s = Inr (True, s')
     \<and> touch_started_inside s' = Some (\<exists>w\<in>stack_widgets s. collide_point (heap s w) t)"
proof -
  have n: "None \<notin> set (map Some (buttons s) @ labels s)" using assms(1) by auto
  have eq: "(True \<in> set (map (\<lambda>w. case w of None \<Rightarrow> False | Some i \<Rightarrow> collide_point (heap s i) t)
                (map Some (buttons s) @ labels s)))
        = (\<exists>w\<in>stack_widgets s. collide_point (heap s w) t)"
    by (auto simp: stack_widgets_def image_iff split: option.splits)
  from assms(2) obtain win where w: "window s = Some win" by blast
  show ?thesis
    unfolding touch_down_def collide_list_some [OF n] then_do_def Let_def forward_def
    using eq w by simp
qed

subsection \<open>Touches on a stack with an entry without hint text\<close>

text \<open>
  C3. The stack built from the two-entry dictionary, whose second entry has no hint
  text, is opened by a release of the root button, and the window animation completes,
  which binds the touch handlers. The stack is open and the handlers are bound, and a
  touch-down anywhere raises \<^verbatim>\<open>AttributeError\<close>: \<^verbatim>\<open>touch_down\<close> calls \<^verbatim>\<open>collide_point\<close> on
  the \<^verbatim>\<open>None\<close> entry of \<^verbatim>\<open>_labels\<close>. The touch is never classified, and the touch-up at
  the same place, outside every widget, is forwarded to the window and leaves the
  stack open.
\<close>

theorem touch_down_raises_on_missing_label:
  "\<exists>s. run tk1 [Release_parent, Complete 0] (state_of (built tk1 data1)) = Inr s
     \<and> state s = Open \<and> touch_handlers \<subseteq> window_bound s \<and> labels s = [Some 1, None]
     \<and> fire tk1 (Touch_down_at (0, 0)) s = Inl AttributeError
     \<and> (\<exists>s'. fire tk1 (Touch_up_at (0, 0)) s = Inr s' \<and> state s' = Open
           \<and> forwarded s' = [(''on_touch_up'', (0, 0))])"
proof -
  from bound_tk1_data1 obtain s where s:
    "run tk1 [Release_parent, Complete 0] (state_of (built tk1 data1)) = Inr s" "state s = Open"
    "labels s = [Some 1, None]" "touch_handlers \<subseteq> window_bound s"
    "window s = Some Window" "auto_dismiss s" "touch_started_inside s = None"
    "forwarded s = []" by blast
  have b: "(''on_touch_down'', Touch_down) \<in> window_bound s"
    "(''on_touch_up'', Touch_up) \<in> window_bound s"
    using s(4) by (auto simp: touch_handlers_def)
  have d: "fire tk1 (Touch_down_at (0, 0)) s = Inl AttributeError"
    using b(1) touch_down_none [of s "(0, 0)"] s(3) by (simp add: then_do_def)
  have u: "\<exists>s'. fire tk1 (Touch_up_at (0, 0)) s = Inr s' \<and> state s' = Open
           \<and> forwarded s' = [(''on_touch_up'', (0, 0))]"
    using b(2) s by (simp add: touch_up_def forward_def then_do_def)
  from s d u show ?thesis by blast
qed

subsection \<open>The touch handlers and the flag\<close>

text \<open>
  C9. On the open stack above, with its handlers bound, \<^verbatim>\<open>touch_down\<close> does not
  return \<^verbatim>\<open>True\<close>: it raises \<^verbatim>\<open>AttributeError\<close> on the \<^verbatim>\<open>None\<close> entry of \<^verbatim>\<open>_labels\<close>, and
  the window event is not consumed.
\<close>

theorem touch_down_does_not_return:
  "touch_down (0, 0) (state_of (run tk1 [Release_parent, Complete 0] (state_of (built tk1 data1))))
     = Inl AttributeError"
proof -
  from bound_tk1_data1 obtain s where s:
    "run tk1 [Release_parent, Complete 0] (state_of (built tk1 data1)) = Inr s"
    "labels s = [Some 1, None]" by blast
  then show ?thesis by (simp add: state_of_def touch_down_none)
qed

theorem touch_down_does_not_return_witness:
  "\<not> (\<exists>s'. touch_down (0, 0)
            (state_of (run tk1 [Release_parent, Complete 0] (state_of (built tk1 data1))))
          = Inr (True, s'))"
  using touch_down_does_not_return by simp

text \<open>
  What \<^verbatim>\<open>touch_up\<close> does with the flag, and what the three handlers return when
  they return. Whenever \<^verbatim>\<open>touch_up\<close> returns, it returns \<^verbatim>\<open>True\<close> and the flag is
  \<^verbatim>\<open>None\<close>; unless dismissal is enabled and the flag is exactly \<^verbatim>\<open>False\<close>, it has only
  forwarded the touch to the window and reset the flag.
\<close>

lemma touch_up_dismisses_only_on_False:
  "(\<forall>r s'. touch_up t s = Inr (r, s') \<longrightarrow> r \<and> touch_started_inside s' = None)
   \<and> (\<forall>r s'. touch_up t s = Inr (r, s')
          \<and> \<not> (auto_dismiss s \<and> touch_started_inside s = Some False) \<longrightarrow>
        s' = s\<lparr>forwarded := forwarded s @ [(''on_touch_up'', t)], touch_started_inside := None\<rparr>)
   \<and> (auto_dismiss s \<and> touch_started_inside s = Some False \<longrightarrow>
        touch_up t s = then_do (close_stack s) (\<lambda>s1. Inr (True, s1\<lparr>touch_started_inside := None\<rparr>)))
   \<and> (window s \<noteq> None \<and> parent s \<noteq> None \<longrightarrow> (\<exists>s'. touch_up t s = Inr (True, s')))
   \<and> (\<forall>r s'. touch_move t s = Inr (r, s') \<longrightarrow> r)
   \<and> (window s \<noteq> None \<longrightarrow> (\<exists>s'. touch_move t s = Inr (True, s')))
   \<and> (\<forall>r s'. touch_down t s = Inr (r, s') \<longrightarrow> r)
   \<and> (window s \<noteq> None \<and> None \<notin> set (labels s) \<longrightarrow> (\<exists>s'. touch_down t s = Inr (True, s')))"
proof (intro conjI allI impI)
  fix r s' assume "touch_up t s = Inr (r, s')"
  then show "r" "touch_started_inside s' = None"
    by (auto simp: touch_up_def then_do_def split: if_splits sum.splits)
next
  fix r s' assume "touch_up t s = Inr (r, s')
          \<and> \<not> (auto_dismiss s \<and> touch_started_inside s = Some False)"
  then show "s' = s\<lparr>forwarded := forwarded s @ [(''on_touch_up'', t)], touch_started_inside := None\<rparr>"
    by (auto simp: touch_up_def then_do_def forward_def split: if_splits sum.splits option.splits)
next
  assume "auto_dismiss s \<and> touch_started_inside s = Some False"
  then show "touch_up t s = then_do (close_stack s) (\<lambda>s1. Inr (True, s1\<lparr>touch_started_inside := None\<rparr>))"
    by (simp add: touch_up_def)
next
  assume a: "window s \<noteq> None \<and> parent s \<noteq> None"
  then obtain s1 where "close_stack s = Inr s1" using close_stack_ok by blast
  with a show "\<exists>s'. touch_up t s = Inr (True, s')"
    by (auto simp: touch_up_def then_do_def forward_def)
next
  fix r s' assume "touch_move t s = Inr (r, s')"
  then show "r" by (auto simp: touch_move_def then_do_def split: if_splits sum.splits)
next
  assume "window s \<noteq> None"
  then show "\<exists>s'. touch_move t s = Inr (True, s')"
    by (auto simp: touch_move_def then_do_def forward_def)
next
  fix r s' assume "touch_down t s = Inr (r, s')"
  then show "r"
    by (auto simp: touch_down_def then_do_def Let_def split: if_splits sum.splits)
next
  assume "window s \<noteq> None \<and> None \<notin> set (labels s)"
  then show "\<exists>s'. touch_down t s = Inr (True, s')" using touch_down_some [of s t] by blast
qed



lemma built_tk1_data7:
  "\<exists>s. built tk1 data7 = Inr s \<and> buttons s = [0] \<and> labels s = [Some 1]
     \<and> local_positions s = [0] \<and> state s = Close \<and> root_window s = Some Window
     \<and> data s = [(''Edit'', PStr ''ab'')]
     \<and> w_class (heap s 0) = MDFloatingBottomButton \<and> w_class (heap s 1) = MDFloatingLabel
     \<and> w_icon (heap s 0) = ''ab'' \<and> w_text (heap s 1) = ''Edit''
     \<and> parent s = Some (root1\<lparr>p_bound := {(''on_release'', Open_stack)}\<rparr>)"
  by (simp add: build_defs data7_def Let_def)

lemma open_stack_kind:
  assumes "state s \<noteq> Open" "open_stack tk s = Inr s'"
  shows "same_kind (heap s i) (heap s' i)" "data s' = data s"
    "hint_animation s' = hint_animation s" "auto_dismiss s' = auto_dismiss s"
    "touch_started_inside s' = touch_started_inside s" "forwarded s' = forwarded s"
proof -
  from open_stack_unfold [OF assms] obtain s5 s6 where o: "opened s s5"
    and a: "do_animation_open_stack (anim_buttons_data s5) s5 = Inr s6"
    and b: "do_animation_open_stack (anim_labels_data s6) s6 = Inr s'" by blast
  have r: "eff_rel s5 s'"
    using eff_rel_trans [OF do_animation_open_stack_rel [OF a] do_animation_open_stack_rel [OF b]] .
  from o obtain s2 abd ald where
    r2: "eff_rel ((cancel_labels s)\<lparr>window := root_window (cancel_labels s)\<rparr>) s2"
    and s5: "s5 = (let s3 = (if abd \<noteq> [] then s2\<lparr>anim_buttons_data := abd\<rparr> else s2);
                 s4 = (if ald \<noteq> [] \<and> \<not> hint_animation s3
                       then s3\<lparr>anim_labels_data := ald\<rparr> else s3)
             in s4\<lparr>disabled := False, state := Open,
                    dispatched := dispatched s4 @ [''on_open'']\<rparr>)"
    unfolding opened_def by blast
  note c = cancel_labels_rel [of s]
  have h5: "heap s5 = heap s2" unfolding s5 Let_def by simp
  have "same_kind (heap s i) (heap (cancel_labels s) i)" using eff_rel_kind [OF c] .
  moreover have "same_kind (heap (cancel_labels s) i) (heap s2 i)"
    using eff_rel_kind [OF r2, of i] by simp
  moreover have "same_kind (heap s2 i) (heap s' i)" using eff_rel_kind [OF r, of i] h5 by simp
  ultimately show "same_kind (heap s i) (heap s' i)" by (blast intro: same_kind_trans)
  note f = eff_rel_fields [OF r] eff_rel_fields [OF r2] eff_rel_fields [OF c]
  show "data s' = data s" "hint_animation s' = hint_animation s" "auto_dismiss s' = auto_dismiss s"
    "touch_started_inside s' = touch_started_inside s" "forwarded s' = forwarded s"
    using f unfolding s5 Let_def by simp_all
qed

subsection \<open>Hovering a button whose icon is the first character of the configured icon\<close>

text \<open>
  C7. The dictionary maps the text \<^verbatim>\<open>Edit\<close> to the icon name \<^verbatim>\<open>ab\<close>; hint animation is
  enabled, the icon of the button is changed to \<^verbatim>\<open>a\<close>, and the stack is opened. The icon
  of the button does not match the configured icon, yet \<^verbatim>\<open>on_enter\<close> starts the fade-in
  of the label to opacity 1: the second test of \<^verbatim>\<open>on_enter\<close> compares the icon with
  \<^verbatim>\<open>data[text][0]\<close>, which for a string is its first character.
\<close>

theorem on_enter_fades_in_on_first_character:
  "\<exists>s8 s9. open_stack tk1 (update_widget 0 (\<lambda>w. w\<lparr>w_icon := ''a''\<rparr>)
                ((state_of (built tk1 data7))\<lparr>hint_animation := True\<rparr>)) = Inr s8
     \<and> w_icon (heap s8 0) = ''a'' \<and> data s8 = [(''Edit'', PStr ''ab'')]
     \<and> w_text (heap s8 1) = ''Edit'' \<and> labels s8 = [Some 1] \<and> buttons s8 = [0]
     \<and> on_enter 0 s8 = Inr s9
     \<and> r_target (last (animations s9)) = On_widget 1
     \<and> a_props (r_anim (last (animations s9))) = [Opacity 1]"
proof -
  let ?s7 = "update_widget 0 (\<lambda>w. w\<lparr>w_icon := ''a''\<rparr>)
                ((state_of (built tk1 data7))\<lparr>hint_animation := True\<rparr>)"
  from built_tk1_data7 obtain s where s: "built tk1 data7 = Inr s" "buttons s = [0]"
    "labels s = [Some 1]" "local_positions s = [0]" "state s = Close" "root_window s = Some Window"
    "data s = [(''Edit'', PStr ''ab'')]"
    "w_class (heap s 0) = MDFloatingBottomButton" "w_class (heap s 1) = MDFloatingLabel"
    "w_icon (heap s 0) = ''ab''" "w_text (heap s 1) = ''Edit''" by blast
  have f7: "?s7 = update_widget 0 (\<lambda>w. w\<lparr>w_icon := ''a''\<rparr>) (s\<lparr>hint_animation := True\<rparr>)"
    using s(1) by (simp add: state_of_def)
  have h: "state ?s7 \<noteq> Open" "root_window ?s7 \<noteq> None" "aligned ?s7"
    unfolding f7 using s by (simp_all add: update_widget_def aligned_def)
  from open_stack_ok [OF h] obtain s8 where s8: "open_stack tk1 ?s7 = Inr s8" by blast
  note r = open_stack_result [OF h(1) s8]
  note k = open_stack_kind [OF h(1) s8]
  have l8: "labels s8 = [Some 1]" "buttons s8 = [0]" "state s8 = Open"
    using r s unfolding f7 by (simp_all add: update_widget_def)
  have d8: "data s8 = [(''Edit'', PStr ''ab'')]" "hint_animation s8"
    using k(2,3) s unfolding f7 by (simp_all add: update_widget_def)
  have i8: "w_icon (heap s8 0) = ''a''" "w_text (heap s8 1) = ''Edit''"
    "w_class (heap s8 1) = MDFloatingLabel"
    using k(1) [of 0] k(1) [of 1] s unfolding f7
    by (simp_all add: update_widget_def same_kind_def)
  have "\<exists>s9. on_enter 0 s8 = Inr s9 \<and> r_target (last (animations s9)) = On_widget 1
     \<and> a_props (r_anim (last (animations s9))) = [Opacity 1]"
    using l8 d8 i8
    by (simp add: on_enter_def is_label_def Let_def cancel_all_def start_animation_def
        then_do_def fade_in_def)
  with s8 i8 d8 l8 show ?thesis by blast
qed

subsection \<open>A label on the left at density 2\<close>

text \<open>
  C8. At density 2 (\<open>dp v = 2 * v\<close>) the label of the first entry is 80 pixels wide, the
  text offset is 66 pixels and the centre of the parent is at 400. With the label
  direction \<^verbatim>\<open>left\<close>, \<^verbatim>\<open>set_pos_labels\<close> subtracts \<^verbatim>\<open>dp(width)\<close>, 160 pixels, from the
  position: the right edge of the label is at 254, not at 334, the centre minus the
  offset. The vertical centre is the parent's.
\<close>

lemma built_tk2_data1:
  "\<exists>s. built tk2 data1 = Inr s \<and> labels s = [Some 1, None]
     \<and> local_positions s = [0, 0] \<and> button_text_offset s = 66
     \<and> label_direction s = Right
     \<and> w_width (heap s 1) = 80 \<and> w_height (heap s 1) = 40 \<and> w_x (heap s 1) = 466
     \<and> parent s = Some (root1\<lparr>p_bound := {(''on_release'', Open_stack)}\<rparr>)"
  by (simp add: build_defs Let_def)

theorem set_pos_labels_left_scales_width:
  "\<exists>s2. set_pos_labels tk2 1 ((state_of (built tk2 data1))\<lparr>label_direction := Left\<rparr>) = Inr s2
     \<and> w_width (heap s2 1) = 80 \<and> w_x (heap s2 1) = 174 \<and> right (heap s2 1) = 254
     \<and> root_center_x s2 - button_text_offset s2 = 334 \<and> center_y (heap s2 1) = 300"
proof -
  from built_tk2_data1 obtain s where s: "built tk2 data1 = Inr s" "labels s = [Some 1, None]"
    "local_positions s = [0, 0]" "button_text_offset s = 66" "w_width (heap s 1) = 80"
    "w_height (heap s 1) = 40"
    "parent s = Some (root1\<lparr>p_bound := {(''on_release'', Open_stack)}\<rparr>)" by blast
  have f: "state_of (built tk2 data1) = s" using s(1) by (simp add: state_of_def)
  show ?thesis unfolding f using s(2-)
    by (simp add: set_pos_labels_def Let_def update_widget_def root_center_x_def root1_def
        tk2_def right_def center_y_def set_center_y_def)
qed


lemma set_pos_labels_geometry:
  assumes "set_pos_labels tk l s = Inr s'"
  shows "\<exists>p i. parent s = Some p \<and> index_of (labels s) (Some l) = Some i
     \<and> w_x (heap s' l) = p_center_x p
          + button_text_offset s * direction_vals_h (label_direction s)
          - (if label_direction s = Left then dp tk (w_width (heap s l)) else 0)
     \<and> w_width (heap s' l) = w_width (heap s l)
     \<and> center_y (heap s' l) = p_center_y p + local_positions s ! i"
  using assms
  by (auto simp: set_pos_labels_def Let_def update_widget_def root_center_x_def center_y_def
      set_center_y_def split: option.splits if_splits)

subsection \<open>Rebuilding: frames\<close>

lemma build_rel_refl: "build_rel s s"
  by (simp add: build_rel_def same_kind_refl)

lemma set_pos_bottom_buttons_build:
  "set_pos_bottom_buttons b s = Inr s' \<Longrightarrow> build_rel s s'"
  by (auto simp: set_pos_bottom_buttons_def Let_def update_widget_def build_rel_def
      same_kind_def set_center_x_def set_center_y_def split: option.splits if_splits)

lemma set_pos_labels_build:
  "set_pos_labels tk l s = Inr s' \<Longrightarrow> build_rel s s'"
  by (auto simp: set_pos_labels_def Let_def update_widget_def build_rel_def
      same_kind_def set_center_y_def split: option.splits if_splits)

lemma bind_user_kind:
  "bind_user k ps w = Inr w' \<Longrightarrow> same_kind w w'"
  by (auto simp: bind_user_def then_do_def same_kind_def split: if_splits sum.splits item.splits)

lemma rebuild_entry_step:
  assumes "rebuild_entry tk (name, ps) t = Inr t'"
  shows "buttons t' = buttons t @ [next_wid t]
     \<and> labels t' = labels t @ [if name = [] then None else Some (Suc (next_wid t))]
     \<and> local_positions t' = local_positions t @ [0]
     \<and> next_wid t' = (if name = [] then Suc (next_wid t) else Suc (Suc (next_wid t)))
     \<and> name_icon ps = Inr (w_icon (heap t' (next_wid t)))
     \<and> w_class (heap t' (next_wid t)) = MDFloatingBottomButton
     \<and> (name \<noteq> [] \<longrightarrow> w_text (heap t' (Suc (next_wid t))) = name
            \<and> w_class (heap t' (Suc (next_wid t))) = MDFloatingLabel)
     \<and> (\<forall>i. i < next_wid t \<longrightarrow> same_kind (heap t i) (heap t' i))
     \<and> parent t' = parent t"
proof -
  from assms obtain ic w1 w2 where ic: "name_icon ps = Inr ic"
    and w1: "bind_user ''on_press'' ps (new_button tk ic) = Inr w1"
    and w2: "bind_user ''on_release'' ps w1 = Inr w2"
    by (auto simp: then_do_def split: sum.splits)
  define b where "b = next_wid t"
  define s1 where "s1 = t\<lparr>heap := (heap t)(b := w2), next_wid := Suc b, buttons := buttons t @ [b]\<rparr>"
  define lab where "lab = (if name \<noteq> [] then Some (next_wid s1) else None)"
  define s2 where "s2 = (case lab of
                   None \<Rightarrow> s1
                 | Some l \<Rightarrow> s1\<lparr>heap := (heap s1)(l := new_label tk s1 name), next_wid := Suc l\<rparr>)"
  define s3 where "s3 = s2\<lparr>labels := labels s2 @ [lab],
                   local_positions := local_positions s2 @ [0]\<rparr>"
  have run: "then_do (set_pos_bottom_buttons b s3) (\<lambda>s4.
            case lab of
              None \<Rightarrow> Inr s4
            | Some l \<Rightarrow> if is_label s4 (Some l) then set_pos_labels tk l s4 else Inr s4) = Inr t'"
    using assms ic w1 w2 unfolding b_def s1_def lab_def s2_def s3_def
    by (simp add: then_do_def Let_def)
  then obtain s4 where s4: "set_pos_bottom_buttons b s3 = Inr s4"
    and t': "(case lab of
              None \<Rightarrow> Inr s4
            | Some l \<Rightarrow> if is_label s4 (Some l) then set_pos_labels tk l s4 else Inr s4) = Inr t'"
    by (auto simp: then_do_def split: sum.splits)
  have r4: "build_rel s3 s4" using s4 by (rule set_pos_bottom_buttons_build)
  have r5: "build_rel s4 t'"
  proof (cases lab)
    case None
    with t' show ?thesis by (simp add: build_rel_refl)
  next
    case (Some l)
    show ?thesis
    proof (cases "is_label s4 (Some l)")
      case True
      with t' Some have "set_pos_labels tk l s4 = Inr t'" by simp
      then show ?thesis by (rule set_pos_labels_build)
    next
      case False
      with t' Some show ?thesis by (simp add: build_rel_refl)
    qed
  qed
  have r: "build_rel s3 t'" using r4 r5 by (auto simp: build_rel_def intro: same_kind_trans)
  have kw: "same_kind (new_button tk ic) w2"
    using bind_user_kind [OF w1] bind_user_kind [OF w2] by (rule same_kind_trans)
  have h3b: "same_kind w2 (heap s3 b)"
    unfolding s3_def s2_def lab_def s1_def by (simp add: same_kind_refl)
  have h3l: "name \<noteq> [] \<Longrightarrow> heap s3 (Suc b) = new_label tk s1 name"
    unfolding s3_def s2_def lab_def s1_def by simp
  have h3o: "i < b \<Longrightarrow> heap s3 i = heap t i" for i
    unfolding s3_def s2_def lab_def s1_def by simp
  have kb: "same_kind (new_button tk ic) (heap t' b)"
    using kw h3b r unfolding build_rel_def by (blast intro: same_kind_trans)
  have kl: "name \<noteq> [] \<Longrightarrow> same_kind (new_label tk s1 name) (heap t' (Suc b))"
    using h3l r unfolding build_rel_def by metis
  have ko: "i < b \<Longrightarrow> same_kind (heap t i) (heap t' i)" for i
    using h3o [of i] r unfolding build_rel_def by metis
  have lists: "buttons s3 = buttons t @ [b]"
    "labels s3 = labels t @ [if name = [] then None else Some (Suc b)]"
    "local_positions s3 = local_positions t @ [0]"
    "next_wid s3 = (if name = [] then Suc b else Suc (Suc b))"
    "parent s3 = parent t"
    unfolding s3_def s2_def lab_def s1_def by (simp_all split: option.splits)
  show ?thesis
    using lists r kb kl ko ic unfolding build_rel_def b_def [symmetric]
    by (auto simp: same_kind_def new_button_def new_label_def)
qed

lemma rebuild_loop:
  "for_each (rebuild_entry tk) d t = Inr t' \<Longrightarrow>
     \<exists>bs ls. buttons t' = buttons t @ bs \<and> labels t' = labels t @ ls
      \<and> local_positions t' = local_positions t @ replicate (length d) 0
      \<and> length bs = length d \<and> length ls = length d
      \<and> next_wid t \<le> next_wid t'
      \<and> (\<forall>i<next_wid t. same_kind (heap t i) (heap t' i))
      \<and> map (\<lambda>b. Inr (w_icon (heap t' b))) bs = map (\<lambda>e. name_icon (snd e)) d
      \<and> list_all (\<lambda>b. w_class (heap t' b) = MDFloatingBottomButton) bs
      \<and> map (\<lambda>l. l = None) ls = map (\<lambda>e. fst e = []) d
      \<and> map (\<lambda>l. case l of None \<Rightarrow> [] | Some i \<Rightarrow> w_text (heap t' i)) ls = map fst d
      \<and> list_all (\<lambda>l. l = None \<or> is_label t' l) ls"
proof (induction d arbitrary: t)
  case Nil
  then show ?case by (simp add: same_kind_refl)
next
  case (Cons e es)
  obtain name ps where e: "e = (name, ps)" by (cases e)
  from Cons.prems e obtain t1 where t1: "rebuild_entry tk (name, ps) t = Inr t1"
    and rest: "for_each (rebuild_entry tk) es t1 = Inr t'"
    by (auto split: sum.splits)
  note S = rebuild_entry_step [OF t1]
  from Cons.IH [OF rest] obtain bs ls where I:
    "buttons t' = buttons t1 @ bs" "labels t' = labels t1 @ ls"
    "local_positions t' = local_positions t1 @ replicate (length es) 0"
    "length bs = length es" "length ls = length es" "next_wid t1 \<le> next_wid t'"
    "\<forall>i<next_wid t1. same_kind (heap t1 i) (heap t' i)"
    "map (\<lambda>b. Inr (w_icon (heap t' b))) bs = map (\<lambda>e. name_icon (snd e)) es"
    "list_all (\<lambda>b. w_class (heap t' b) = MDFloatingBottomButton) bs"
    "map (\<lambda>l. l = None) ls = map (\<lambda>e. fst e = []) es"
    "map (\<lambda>l. case l of None \<Rightarrow> [] | Some i \<Rightarrow> w_text (heap t' i)) ls = map fst es"
    "list_all (\<lambda>l. l = None \<or> is_label t' l) ls"
    by blast
  let ?b = "next_wid t"
  let ?l = "if name = [] then None else Some (Suc ?b)"
  have lt: "?b < next_wid t1" using S by simp
  have kb: "same_kind (heap t1 ?b) (heap t' ?b)" using I(7) lt by simp
  have kl: "name \<noteq> [] \<Longrightarrow> same_kind (heap t1 (Suc ?b)) (heap t' (Suc ?b))"
    using I(7) S by simp
  have old: "\<forall>i<?b. same_kind (heap t i) (heap t' i)"
  proof (intro allI impI)
    fix i assume i: "i < ?b"
    with S have "same_kind (heap t i) (heap t1 i)" by simp
    moreover from i lt I(7) have "same_kind (heap t1 i) (heap t' i)" by simp
    ultimately show "same_kind (heap t i) (heap t' i)" by (rule same_kind_trans)
  qed
  have b1: "buttons t' = buttons t @ (?b # bs)" using S I(1) by simp
  have l1: "labels t' = labels t @ (?l # ls)" using S I(2) by simp
  have p1: "local_positions t' = local_positions t @ replicate (length (e # es)) 0"
    using S I(3) by simp
  have n1: "next_wid t \<le> next_wid t'" using lt I(6) by simp
  have ic: "Inr (w_icon (heap t' ?b)) = name_icon ps"
    using S kb by (simp add: same_kind_def)
  have cb: "w_class (heap t' ?b) = MDFloatingBottomButton"
    using S kb by (simp add: same_kind_def)
  have tl: "(case ?l of None \<Rightarrow> [] | Some i \<Rightarrow> w_text (heap t' i)) = name"
    using S kl by (auto simp: same_kind_def)
  have cl: "?l = None \<or> is_label t' ?l"
    using S kl by (auto simp: same_kind_def is_label_def)
  have "length (?b # bs) = length (e # es) \<and> length (?l # ls) = length (e # es)
      \<and> map (\<lambda>b. Inr (w_icon (heap t' b))) (?b # bs) = map (\<lambda>e. name_icon (snd e)) (e # es)
      \<and> list_all (\<lambda>b. w_class (heap t' b) = MDFloatingBottomButton) (?b # bs)
      \<and> map (\<lambda>l. l = None) (?l # ls) = map (\<lambda>e. fst e = []) (e # es)
      \<and> map (\<lambda>l. case l of None \<Rightarrow> [] | Some i \<Rightarrow> w_text (heap t' i)) (?l # ls) = map fst (e # es)
      \<and> list_all (\<lambda>l. l = None \<or> is_label t' l) (?l # ls)"
    using I(4,5,8-12) ic cb tl cl e by simp
  with b1 l1 p1 n1 old show ?case by blast
qed

lemma rem_rel_refl: "rem_rel s s"
  by (simp add: rem_rel_def same_kind_refl)

lemma rem_rel_trans: "rem_rel s s' \<Longrightarrow> rem_rel s' s'' \<Longrightarrow> rem_rel s s''"
  by (auto simp: rem_rel_def intro: same_kind_trans)

lemma remove_widget_rel: "rem_rel s (remove_widget w s)"
  using set_remove1_subset [of w "window_children s"]
  by (auto simp: rem_rel_def remove_widget_def window_remove_widget_def update_widget_def
      same_kind_def)

lemma remove_widget_gone:
  "window s \<noteq> None \<Longrightarrow> distinct (window_children s) \<Longrightarrow>
   w \<notin> set (window_children (remove_widget w s))"
  by (auto simp: remove_widget_def window_remove_widget_def update_widget_def)

lemma rem_rel_class:
  "rem_rel s s' \<Longrightarrow> is_button s' w = is_button s w \<and> is_label s' w = is_label s w"
  by (simp add: rem_rel_def same_kind_def is_button_def is_label_def split: option.splits)

lemma remove_widgets_step_rel:
  assumes "remove_widgets_step (i, b) s = Inr s'"
  shows "rem_rel s s' \<and> rstep_done s s' (i, b)"
proof -
  let ?s1 = "if is_button s (Some b) then remove_widget b s else s"
  have r1: "rem_rel s ?s1" by (simp add: remove_widget_rel rem_rel_refl)
  have lab: "labels ?s1 = labels s" and w1: "window ?s1 = window s"
    using r1 by (simp_all add: rem_rel_def)
  have i: "i < length (labels s)" using assms lab
    by (auto simp: Let_def split: if_splits)
  have s': "s' = (case labels s ! i of None \<Rightarrow> ?s1
                 | Some l \<Rightarrow> if is_label ?s1 (Some l) then remove_widget l ?s1 else ?s1)"
    using assms i lab by (auto simp: Let_def split: if_splits option.splits)
  have r2: "rem_rel ?s1 s'" unfolding s'
    by (simp add: remove_widget_rel rem_rel_refl split: option.splits)
  have r: "rem_rel s s'" using rem_rel_trans [OF r1 r2] .
  have "rstep_done s s' (i, b)"
  proof (cases "window s = None \<or> \<not> distinct (window_children s)")
    case True
    with i show ?thesis by (auto simp: rstep_done_def)
  next
    case False
    then have w: "window s \<noteq> None" and d: "distinct (window_children s)" by simp_all
    have d1: "distinct (window_children ?s1)" using r1 d unfolding rem_rel_def by blast
    have pb: "is_button s (Some b) \<Longrightarrow> b \<notin> set (window_children s')"
    proof -
      assume "is_button s (Some b)"
      with w d have "b \<notin> set (window_children ?s1)" by (simp add: remove_widget_gone)
      with r2 show ?thesis unfolding rem_rel_def by blast
    qed
    have pl: "labels s ! i = Some l \<Longrightarrow> is_label s (Some l) \<Longrightarrow> l \<notin> set (window_children s')" for l
    proof -
      assume l: "labels s ! i = Some l" "is_label s (Some l)"
      have "is_label ?s1 (Some l)" using rem_rel_class [OF r1, of "Some l"] l(2) by simp
      with l(1) have "s' = remove_widget l ?s1" unfolding s' by simp
      moreover have "window ?s1 \<noteq> None" using w1 w by simp
      ultimately show ?thesis using remove_widget_gone [of ?s1 l] d1 by simp
    qed
    from i pb pl show ?thesis unfolding rstep_done_def by auto
  qed
  with r show ?thesis by simp
qed

lemma rstep_done_mono:
  "rstep_done s s1 ib \<Longrightarrow> rem_rel s1 s2 \<Longrightarrow> rstep_done s s2 ib"
  by (auto simp: rstep_done_def rem_rel_def)

lemma rstep_done_shift:
  "rem_rel s s1 \<Longrightarrow> rstep_done s1 s2 ib \<Longrightarrow> rstep_done s s2 ib"
  using rem_rel_class [of s s1]
  by (auto simp: rstep_done_def rem_rel_def)

lemma for_each_rem_rel:
  "for_each remove_widgets_step xs s = Inr s' \<Longrightarrow>
   rem_rel s s' \<and> (\<forall>ib\<in>set xs. rstep_done s s' ib)"
proof (induction xs arbitrary: s)
  case Nil
  then show ?case by (simp add: rem_rel_refl)
next
  case (Cons x xs)
  obtain i b where x: "x = (i, b)" by (cases x)
  from Cons.prems x obtain s1 where s1: "remove_widgets_step (i, b) s = Inr s1"
    "for_each remove_widgets_step xs s1 = Inr s'"
    by (auto split: sum.splits)
  from remove_widgets_step_rel [OF s1(1)] have a: "rem_rel s s1" "rstep_done s s1 (i, b)" by simp_all
  from Cons.IH [OF s1(2)] have b: "rem_rel s1 s'" "\<forall>ib\<in>set xs. rstep_done s1 s' ib" by simp_all
  show ?case using a b x
    by (auto intro: rem_rel_trans rstep_done_mono rstep_done_shift)
qed

lemma enumerate_list_nth: "i < length xs \<Longrightarrow> (i, xs ! i) \<in> set (enumerate_list xs)"
  unfolding enumerate_list_def in_set_zip by (rule exI [of _ i]) simp

lemma remove_widgets_ok:
  assumes "length (buttons s) \<le> length (labels s)"
  shows "\<exists>s'. remove_widgets s = Inr s'"
proof -
  let ?n = "length (buttons s)"
  let ?I = "\<lambda>t. ?n \<le> length (labels t)"
  have step: "\<exists>t'. remove_widgets_step x t = Inr t' \<and> ?I t'"
    if "x \<in> set (enumerate_list (buttons s))" "?I t" for x t
  proof -
    obtain i b where x: "x = (i, b)" by (cases x)
    from that(1) x have i: "i < ?n" using enumerate_list_fst by fastforce
    have l1: "labels (if is_button t (Some b) then remove_widget b t else t) = labels t"
      using remove_widget_rel [of t b] by (simp add: rem_rel_def)
    from i that(2) have "\<exists>t'. remove_widgets_step (i, b) t = Inr t'"
      by (simp add: Let_def l1 split: option.splits)
    then obtain t' where t': "remove_widgets_step x t = Inr t'" unfolding x by blast
    from remove_widgets_step_rel [OF t' [unfolded x]] that(2) have "?I t'"
      by (simp add: rem_rel_def)
    with t' show ?thesis by blast
  qed
  from for_each_ok [where I = ?I and f = remove_widgets_step, OF assms step]
  show ?thesis unfolding remove_widgets_def by blast
qed

lemma remove_widgets_removes:
  assumes "remove_widgets s = Inr s'" "window s \<noteq> None" "distinct (window_children s)"
    "well_classed s" "aligned s"
  shows "stack_widgets s \<inter> set (window_children s') = {}"
proof -
  from assms(1) have d: "\<forall>ib\<in>set (enumerate_list (buttons s)). rstep_done s s' ib"
    using for_each_rem_rel [of "enumerate_list (buttons s)" s s'] by (simp add: remove_widgets_def)
  have "w \<notin> set (window_children s')" if "w \<in> stack_widgets s" for w
  proof (cases "w \<in> set (buttons s)")
    case True
    then obtain i where i: "i < length (buttons s)" "buttons s ! i = w"
      by (auto simp: in_set_conv_nth)
    with d enumerate_list_nth [of i "buttons s"] have "rstep_done s s' (i, w)" by auto
    moreover have "is_button s (Some w)" using True assms(4)
      by (auto simp: well_classed_def list_all_iff)
    ultimately show ?thesis using assms(2,3) by (simp add: rstep_done_def)
  next
    case False
    with that have "Some w \<in> set (labels s)" by (simp add: stack_widgets_def)
    then obtain i where i: "i < length (labels s)" "labels s ! i = Some w"
      by (auto simp: in_set_conv_nth)
    with assms(5) have ib: "i < length (buttons s)" by (simp add: aligned_def)
    with d enumerate_list_nth [of i "buttons s"] have "rstep_done s s' (i, buttons s ! i)" by auto
    moreover have "is_label s (Some w)" using i assms(4)
      by (auto simp: well_classed_def list_all_iff dest!: nth_mem)
    ultimately show ?thesis using assms(2,3) i by (simp add: rstep_done_def)
  qed
  then show ?thesis by auto
qed

lemma entry_ok_bind:
  assumes "entry_ok ps"
  shows "\<exists>w'. bind_user ''on_press'' ps w = Inr w'" "\<exists>w'. bind_user ''on_release'' ps w = Inr w'"
proof -
  show "\<exists>w'. bind_user ''on_press'' ps w = Inr w'"
  proof (cases "contains_key ''on_press'' ps")
    case False
    then show ?thesis by (simp add: bind_user_def)
  next
    case True
    with assms obtain c where "callback_after ''on_press'' ps = Inr (Callable c)"
      by (auto simp: entry_ok_def callable_after_def split: sum.splits item.splits)
    with True show ?thesis by (simp add: bind_user_def then_do_def)
  qed
  show "\<exists>w'. bind_user ''on_release'' ps w = Inr w'"
  proof (cases "contains_key ''on_release'' ps")
    case False
    then show ?thesis by (simp add: bind_user_def)
  next
    case True
    with assms obtain c where "callback_after ''on_release'' ps = Inr (Callable c)"
      by (auto simp: entry_ok_def callable_after_def split: sum.splits item.splits)
    with True show ?thesis by (simp add: bind_user_def then_do_def)
  qed
qed

lemma rebuild_entry_ok:
  assumes "parent t \<noteq> None" "aligned t" "entry_ok ps"
  shows "\<exists>t'. rebuild_entry tk (name, ps) t = Inr t'"
proof -
  from assms(3) obtain ic where ic: "name_icon ps = Inr ic"
    by (cases "name_icon ps") (auto simp: entry_ok_def)
  from entry_ok_bind [OF assms(3)] obtain w1 w2 where
    w1: "bind_user ''on_press'' ps (new_button tk ic) = Inr w1"
    and w2: "bind_user ''on_release'' ps w1 = Inr w2" by metis
  define b where "b = next_wid t"
  define s1 where "s1 = t\<lparr>heap := (heap t)(b := w2), next_wid := Suc b, buttons := buttons t @ [b]\<rparr>"
  define lab where "lab = (if name \<noteq> [] then Some (next_wid s1) else None)"
  define s2 where "s2 = (case lab of
                   None \<Rightarrow> s1
                 | Some l \<Rightarrow> s1\<lparr>heap := (heap s1)(l := new_label tk s1 name), next_wid := Suc l\<rparr>)"
  define s3 where "s3 = s2\<lparr>labels := labels s2 @ [lab],
                   local_positions := local_positions s2 @ [0]\<rparr>"
  have eq: "rebuild_entry tk (name, ps) t = then_do (set_pos_bottom_buttons b s3) (\<lambda>s4.
            case lab of
              None \<Rightarrow> Inr s4
            | Some l \<Rightarrow> if is_label s4 (Some l) then set_pos_labels tk l s4 else Inr s4)"
    using ic w1 w2 unfolding b_def s1_def lab_def s2_def s3_def
    by (simp add: then_do_def Let_def)
  have l3: "buttons s3 = buttons t @ [b]" "labels s3 = labels t @ [lab]"
    "local_positions s3 = local_positions t @ [0]" "parent s3 = parent t"
    unfolding s3_def s2_def s1_def by (simp_all split: option.splits)
  from index_of_mem [of b "buttons s3"] l3 obtain i where
    i: "index_of (buttons s3) b = Some i" "i < length (buttons s3)" by auto
  from assms(1) l3 obtain p where p: "parent s3 = Some p" by auto
  have "i < length (local_positions s3)" using i l3 assms(2) by (simp add: aligned_def)
  with i p obtain s4 where s4: "set_pos_bottom_buttons b s3 = Inr s4"
    by (simp add: set_pos_bottom_buttons_def Let_def update_widget_def)
  note r4 = set_pos_bottom_buttons_build [OF s4]
  show ?thesis
  proof (cases lab)
    case None
    with eq s4 show ?thesis by (simp add: then_do_def)
  next
    case (Some l)
    have l4: "labels s4 = labels t @ [Some l]" "local_positions s4 = local_positions t @ [0]"
      "parent s4 = Some p"
      using r4 l3 Some p by (simp_all add: build_rel_def)
    show ?thesis
    proof (cases "is_label s4 (Some l)")
      case False
      with eq s4 Some show ?thesis by (simp add: then_do_def)
    next
      case True
      from index_of_mem [of "Some l" "labels s4"] l4 obtain j where
        j: "index_of (labels s4) (Some l) = Some j" "j < length (labels s4)" by auto
      have "j < length (local_positions s4)" using j l4 assms(2) by (simp add: aligned_def)
      with j l4 have "\<exists>t'. set_pos_labels tk l s4 = Inr t'"
        by (simp add: set_pos_labels_def Let_def update_widget_def)
      with eq s4 Some True show ?thesis by (simp add: then_do_def)
    qed
  qed
qed

lemma rebuild_loop_ok:
  assumes "parent t \<noteq> None" "aligned t" "list_all (\<lambda>e. entry_ok (snd e)) d"
  shows "\<exists>t'. for_each (rebuild_entry tk) d t = Inr t'"
proof -
  let ?I = "\<lambda>t. parent t \<noteq> None \<and> aligned t"
  have step: "\<exists>t'. rebuild_entry tk e t = Inr t' \<and> ?I t'" if "e \<in> set d" "?I t" for e t
  proof -
    obtain name ps where e: "e = (name, ps)" by (cases e)
    from that(1) assms(3) e have "entry_ok ps" by (auto simp: list_all_iff)
    from rebuild_entry_ok [OF _ _ this, of t tk name] that(2) obtain t' where
      t': "rebuild_entry tk (name, ps) t = Inr t'" by blast
    from rebuild_entry_step [OF t'] that(2) have "?I t'" by (simp add: aligned_def)
    with t' e show ?thesis by blast
  qed
  from for_each_ok [where I = ?I and f = "rebuild_entry tk", OF _ step] assms(1,2)
  show ?thesis by blast
qed

subsection \<open>The rebuild of the stack\<close>

text \<open>
  When \<^verbatim>\<open>on_data\<close> returns, the three sequences are empty and the rebuild for the
  dictionary is scheduled; the widgets of the old stack are no longer children of the
  window (on a state whose sequences are aligned, whose widgets have their classes and
  whose window reference is set; without a window reference nothing was ever added).
  \<^verbatim>\<open>on_data\<close> returns whenever \<^verbatim>\<open>_labels\<close> is at least as long as \<^verbatim>\<open>_buttons\<close>. When the
  deferred rebuild, started on empty sequences, returns, each of the three sequences
  has one entry per entry of the dictionary, in the order of the dictionary: the icon
  of the i-th button is the icon name of the i-th entry, the i-th label is \<^verbatim>\<open>None\<close>
  exactly when the i-th text is empty, and otherwise it is a label with that text. The
  rebuild returns whenever there is a parent and every value of the dictionary can be
  read.
\<close>

lemma on_data_rebuilds_aligned:
  "(\<forall>s1. on_data d s = Inr s1 \<longrightarrow>
       buttons s1 = [] \<and> labels s1 = [] \<and> local_positions s1 = [] \<and> clock s1 = clock s @ [d])
   \<and> (\<forall>s1. on_data d s = Inr s1 \<and> window s \<noteq> None \<and> distinct (window_children s)
           \<and> well_classed s \<and> aligned s \<longrightarrow>
         stack_widgets s \<inter> set (window_children s1) = {})
   \<and> (length (buttons s) \<le> length (labels s) \<longrightarrow> (\<exists>s1. on_data d s = Inr s1))
   \<and> (\<forall>t t'. buttons t = [] \<and> labels t = [] \<and> local_positions t = []
           \<and> on_data_inner tk d t = Inr t' \<longrightarrow>
         length (buttons t') = length d \<and> length (labels t') = length d
         \<and> length (local_positions t') = length d
         \<and> map (\<lambda>b. Inr (w_icon (heap t' b))) (buttons t') = map (\<lambda>e. name_icon (snd e)) d
         \<and> map (\<lambda>l. l = None) (labels t') = map (\<lambda>e. fst e = []) d
         \<and> map (\<lambda>l. case l of None \<Rightarrow> [] | Some i \<Rightarrow> w_text (heap t' i)) (labels t') = map fst d
         \<and> well_classed t')
   \<and> (\<forall>t. buttons t = [] \<and> labels t = [] \<and> local_positions t = [] \<and> parent t \<noteq> None
           \<and> list_all (\<lambda>e. entry_ok (snd e)) d \<longrightarrow> (\<exists>t'. on_data_inner tk d t = Inr t'))"
proof (intro conjI allI impI)
  fix s1 assume a: "on_data d s = Inr s1"
  then obtain s0 where s0: "remove_widgets s = Inr s0"
    and s1: "s1 = s0\<lparr>buttons := [], labels := [], local_positions := [],
               anim_buttons_data := [], anim_labels_data := [],
               clock := clock s0 @ [d]\<rparr>"
    by (auto simp: on_data_def then_do_def split: sum.splits)
  from s0 have "rem_rel s s0"
    using for_each_rem_rel [of "enumerate_list (buttons s)" s s0] by (simp add: remove_widgets_def)
  then have "clock s0 = clock s" by (simp add: rem_rel_def)
  with s1 show "buttons s1 = []" "labels s1 = []" "local_positions s1 = []"
    "clock s1 = clock s @ [d]" by simp_all
next
  fix s1 assume a: "on_data d s = Inr s1 \<and> window s \<noteq> None \<and> distinct (window_children s)
           \<and> well_classed s \<and> aligned s"
  then obtain s0 where s0: "remove_widgets s = Inr s0"
    and s1: "window_children s1 = window_children s0"
    by (auto simp: on_data_def then_do_def split: sum.splits)
  from remove_widgets_removes [OF s0] a s1
  show "stack_widgets s \<inter> set (window_children s1) = {}" by simp
next
  assume "length (buttons s) \<le> length (labels s)"
  from remove_widgets_ok [OF this] show "\<exists>s1. on_data d s = Inr s1"
    by (auto simp: on_data_def then_do_def)
next
  fix t t' assume a: "buttons t = [] \<and> labels t = [] \<and> local_positions t = []
           \<and> on_data_inner tk d t = Inr t'"
  let ?t0 = "t\<lparr>window_bound := insert (''on_draw'', Update_pos_buttons) (window_bound t)\<rparr>"
  from a obtain t1 where t1: "for_each (rebuild_entry tk) d ?t0 = Inr t1"
    and t': "t' = t1\<lparr>widget_declaration_finished := True\<rparr>"
    by (auto simp: on_data_inner_def then_do_def split: sum.splits)
  from rebuild_loop [OF t1] a obtain bs ls where L:
    "buttons t1 = bs" "labels t1 = ls"
    "local_positions t1 = replicate (length d) 0"
    "length bs = length d" "length ls = length d"
    "map (\<lambda>b. Inr (w_icon (heap t1 b))) bs = map (\<lambda>e. name_icon (snd e)) d"
    "list_all (\<lambda>b. w_class (heap t1 b) = MDFloatingBottomButton) bs"
    "map (\<lambda>l. l = None) ls = map (\<lambda>e. fst e = []) d"
    "map (\<lambda>l. case l of None \<Rightarrow> [] | Some i \<Rightarrow> w_text (heap t1 i)) ls = map fst d"
    "list_all (\<lambda>l. l = None \<or> is_label t1 l) ls"
    by auto
  have il: "is_label t' = is_label t1" unfolding t'
    by (simp add: is_label_def fun_eq_iff split: option.splits)
  have eqs: "buttons t' = buttons t1" "labels t' = labels t1"
    "local_positions t' = local_positions t1" "heap t' = heap t1"
    unfolding t' by simp_all
  show "length (buttons t') = length d" "length (labels t') = length d"
    "length (local_positions t') = length d"
    "map (\<lambda>b. Inr (w_icon (heap t' b))) (buttons t') = map (\<lambda>e. name_icon (snd e)) d"
    "map (\<lambda>l. l = None) (labels t') = map (\<lambda>e. fst e = []) d"
    "map (\<lambda>l. case l of None \<Rightarrow> [] | Some i \<Rightarrow> w_text (heap t' i)) (labels t') = map fst d"
    using L unfolding eqs by simp_all
  show "well_classed t'"
    using L(1,2,7,10) unfolding well_classed_def eqs il
    by (simp add: is_button_def eqs)
next
  fix t :: speed_dial
  assume a: "buttons t = [] \<and> labels t = [] \<and> local_positions t = [] \<and> parent t \<noteq> None
           \<and> list_all (\<lambda>e. entry_ok (snd e)) d"
  let ?t0 = "t\<lparr>window_bound := insert (''on_draw'', Update_pos_buttons) (window_bound t)\<rparr>"
  have "parent ?t0 \<noteq> None" "aligned ?t0" using a by (simp_all add: aligned_def)
  from rebuild_loop_ok [OF this, of d tk] a obtain t1 where
    "for_each (rebuild_entry tk) d ?t0 = Inr t1" by blast
  then show "\<exists>t'. on_data_inner tk d t = Inr t'"
    by (simp add: on_data_inner_def then_do_def)
qed

subsection \<open>Two assignments of the dictionary before the clock runs\<close>

text \<open>
  C1. The rebuild is deferred, the sequences are emptied when it is scheduled and not
  when it runs. \<^verbatim>\<open>data\<close> is assigned the dictionary that maps the text \<^verbatim>\<open>Edit\<close> to the
  icon \<^verbatim>\<open>ab\<close>, and then the dictionary that maps the empty text to the icon \<^verbatim>\<open>plus\<close>,
  before the clock runs; each assignment empties the sequences and schedules a rebuild,
  and the clock runs both. After the last deferred rebuild the dictionary has one entry, and the
  sequences have two: the button and the label of the dictionary assigned first come
  first, and the label at index 0 is the label \<^verbatim>\<open>Edit\<close> although the text of the entry at
  index 0 is empty.
\<close>

theorem rebuild_keeps_entries_of_earlier_assignment:
  "\<exists>s. assigned_twice = Inr s \<and> data s = data8 \<and> clock s = []
     \<and> buttons s = [0, 2] \<and> labels s = [Some 1, None] \<and> local_positions s = [0, 0]
     \<and> map (\<lambda>b. w_icon (heap s b)) (buttons s) = [''ab'', ''plus'']
     \<and> w_text (heap s 1) = ''Edit''
     \<and> length data8 = 1 \<and> fst (data8 ! 0) = []"
  by (simp add: assigned_twice_def data7_def data8_def run_def build_defs Let_def)

subsection \<open>Opening the stack again while it is closing\<close>

lemmas touch_defs = touch_down_def touch_up_def touch_move_def forward_def close_stack_def
  open_binding_def close_binding_def touch_handlers_def collide_point_def right_def top_def
  drop_nth_def

lemma opened_tk1_data7:
  "\<exists>s. fire tk1 Release_parent (state_of (built tk1 data7)) = Inr s \<and> state s = Open
     \<and> window_children s = [1, 0] \<and> window_bound s \<inter> touch_handlers = {}
     \<and> map r_on_complete (animations s) = [[Open_binding], [], [Open_binding], []]"
  by (simp add: data7_def build_defs open_defs touch_handlers_def Let_def
      upt_rec [of 0] upt_rec [of 1])

lemma reopened_eval:
  "\<exists>s. reopened = Inr s \<and> state s = Open
     \<and> dispatched s = [''on_open'', ''on_close'', ''on_open'']
     \<and> touch_handlers \<subseteq> window_bound s
     \<and> map r_on_complete (animations s)
         = [[Close_binding], [], [Open_binding], [], [Open_binding], []]
     \<and> r_target (animations s ! 0) = On_window
     \<and> a_props (r_anim (animations s ! 0)) = [Size (800, 600)]
     \<and> window_children s = [1, 0] \<and> buttons s = [0] \<and> labels s = [Some 1]
     \<and> window s = Some Window \<and> auto_dismiss s \<and> touch_started_inside s = None
     \<and> parent s = Some (root1\<lparr>p_bound := {(''on_release'', Open_stack)}\<rparr>)
     \<and> \<not> collide_point (heap s 0) (0, 0) \<and> \<not> collide_point (heap s 1) (0, 0)
     \<and> w_opacity (heap s 1) = 1
     \<and> w_class (heap s 0) = MDFloatingBottomButton \<and> w_class (heap s 1) = MDFloatingLabel
     \<and> r_target (animations s ! 2) = On_window
     \<and> a_props (r_anim (animations s ! 2)) = [Size (800, 600)]"
  by (simp add: reopened_def data7_def run_def build_defs open_defs touch_defs Let_def
      upt_rec [of 0] upt_rec [of 1])

text \<open>
  C5. On the first opening the widgets are in the window as soon as \<^verbatim>\<open>open_stack\<close> has
  returned, the touch handlers are not bound, and \<^verbatim>\<open>open_binding\<close> waits for the two
  window animations to complete. \<^verbatim>\<open>close_stack\<close> leaves the handlers bound until its own
  window animation completes. When the root button is released again before that, the
  stack is open for the second time with the handlers of the first opening still bound:
  a touch outside dismisses it while both window animations of the second opening, the
  ones that would bind the handlers, are still running. And when the window animation of
  the closing completes, \<^verbatim>\<open>close_binding\<close> removes the widgets of the open stack from the
  window and unbinds the handlers; the window animation of the second opening that
  completes next binds the handlers while no widget of the stack is in the window.
\<close>

theorem dismissal_before_reopening_completes:
  "(\<exists>s0. fire tk1 Release_parent (state_of (built tk1 data7)) = Inr s0 \<and> state s0 = Open
       \<and> window_children s0 = [1, 0] \<and> window_bound s0 \<inter> touch_handlers = {}
       \<and> map r_on_complete (animations s0) = [[Open_binding], [], [Open_binding], []])
   \<and> (\<exists>s. reopened = Inr s \<and> state s = Open \<and> touch_handlers \<subseteq> window_bound s
       \<and> dispatched s = [''on_open'', ''on_close'', ''on_open'']
       \<and> map r_on_complete (animations s)
           = [[Close_binding], [], [Open_binding], [], [Open_binding], []]
       \<and> (\<exists>s2. run tk1 [Touch_down_at (0, 0), Touch_up_at (0, 0)] s = Inr s2
             \<and> state s2 = Close
             \<and> dispatched s2 = [''on_open'', ''on_close'', ''on_open'', ''on_close'']
             \<and> map r_on_complete (animations s2)
                 = [[Close_binding], [], [Open_binding], [], [Open_binding], [],
                    [Close_binding], [], []])
       \<and> (\<exists>s3. fire tk1 (Complete 0) s = Inr s3 \<and> state s3 = Open
             \<and> window_children s3 = [] \<and> window_bound s3 \<inter> touch_handlers = {}
             \<and> map r_on_complete (animations s3) = [[], [Open_binding], [], [Open_binding], []]
             \<and> (\<exists>s4. fire tk1 (Complete 1) s3 = Inr s4 \<and> state s4 = Open
                   \<and> window_children s4 = [] \<and> touch_handlers \<subseteq> window_bound s4)))"
proof -
  from reopened_eval obtain s where s: "reopened = Inr s" "state s = Open"
    "dispatched s = [''on_open'', ''on_close'', ''on_open'']"
    "touch_handlers \<subseteq> window_bound s"
    "map r_on_complete (animations s)
         = [[Close_binding], [], [Open_binding], [], [Open_binding], []]"
    "r_target (animations s ! 0) = On_window"
    "a_props (r_anim (animations s ! 0)) = [Size (800, 600)]"
    "window_children s = [1, 0]" "buttons s = [0]" "labels s = [Some 1]"
    "window s = Some Window" "auto_dismiss s" "touch_started_inside s = None"
    "parent s = Some (root1\<lparr>p_bound := {(''on_release'', Open_stack)}\<rparr>)"
    "\<not> collide_point (heap s 0) (0, 0)" "\<not> collide_point (heap s 1) (0, 0)"
    "w_opacity (heap s 1) = 1"
    "w_class (heap s 0) = MDFloatingBottomButton" "w_class (heap s 1) = MDFloatingLabel"
    "r_target (animations s ! 2) = On_window"
    "a_props (r_anim (animations s ! 2)) = [Size (800, 600)]"
    apply (elim exE conjE)
    apply (rule that)
    apply assumption+
    done
  have b: "(''on_touch_down'', Touch_down) \<in> window_bound s"
    "(''on_touch_up'', Touch_up) \<in> window_bound s"
    using s(4) by (auto simp: touch_handlers_def)
  have d: "fire tk1 (Touch_down_at (0, 0)) s = Inr (s\<lparr>touch_started_inside := Some False\<rparr>)"
    using b(1) s by (simp add: touch_down_def then_do_def Let_def)
  have u: "\<exists>s2. fire tk1 (Touch_up_at (0, 0)) (s\<lparr>touch_started_inside := Some False\<rparr>) = Inr s2
           \<and> state s2 = Close
           \<and> dispatched s2 = [''on_open'', ''on_close'', ''on_open'', ''on_close'']
           \<and> map r_on_complete (animations s2)
               = [[Close_binding], [], [Open_binding], [], [Open_binding], [],
                  [Close_binding], [], []]"
    using b(2) s
    by (simp add: touch_up_def close_stack_def then_do_def start_animation_def
        is_button_def is_label_def)
  have r: "\<exists>s2. run tk1 [Touch_down_at (0, 0), Touch_up_at (0, 0)] s = Inr s2
           \<and> state s2 = Close
           \<and> dispatched s2 = [''on_open'', ''on_close'', ''on_open'', ''on_close'']
           \<and> map r_on_complete (animations s2)
               = [[Close_binding], [], [Open_binding], [], [Open_binding], [],
                  [Close_binding], [], []]"
  proof -
    from u obtain s2 where u2:
      "fire tk1 (Touch_up_at (0, 0)) (s\<lparr>touch_started_inside := Some False\<rparr>) = Inr s2
       \<and> state s2 = Close
       \<and> dispatched s2 = [''on_open'', ''on_close'', ''on_open'', ''on_close'']
       \<and> map r_on_complete (animations s2)
           = [[Close_binding], [], [Open_binding], [], [Open_binding], [],
              [Close_binding], [], []]" ..
    then have "run tk1 [Touch_down_at (0, 0), Touch_up_at (0, 0)] s = Inr s2"
      unfolding run_def using d by (simp del: fire.simps)
    with u2 show ?thesis by (intro exI [of _ s2]) simp
  qed
  have aux: "\<And>A B :: (string \<times> callback) set. (A - B) \<inter> B = {}" by blast
  obtain a0 a1 a2 a3 a4 a5 where an: "animations s = [a0, a1, a2, a3, a4, a5]"
    "r_on_complete a0 = [Close_binding]" "r_on_complete a1 = []"
    "r_on_complete a2 = [Open_binding]" "r_on_complete a3 = []"
    "r_on_complete a4 = [Open_binding]" "r_on_complete a5 = []"
    using s(5) by (auto simp: map_eq_Cons_conv)
  define s3 where "s3 = s\<lparr>animations := [a1, a2, a3, a4, a5], window_size := (800, 600),
    heap := (heap s)(0 := (heap s 0)\<lparr>w_parent := False\<rparr>, 1 := (heap s 1)\<lparr>w_parent := False\<rparr>),
    window_children := [], window_bound := window_bound s - touch_handlers\<rparr>"
  have c0: "fire tk1 (Complete 0) s = Inr s3"
    using an s unfolding s3_def
    by (simp add: Let_def close_binding_def remove_widgets_def enumerate_list_def drop_nth_def
        remove_widget_def window_remove_widget_def update_widget_def is_button_def is_label_def
        then_do_def)
  have c1: "\<exists>s4. fire tk1 (Complete 1) s3 = Inr s4 \<and> state s4 = Open
           \<and> window_children s4 = [] \<and> touch_handlers \<subseteq> window_bound s4"
    using an s unfolding s3_def
    by (simp add: Let_def open_binding_def drop_nth_def then_do_def)
  have c: "\<exists>s3. fire tk1 (Complete 0) s = Inr s3 \<and> state s3 = Open
             \<and> window_children s3 = [] \<and> window_bound s3 \<inter> touch_handlers = {}
             \<and> map r_on_complete (animations s3) = [[], [Open_binding], [], [Open_binding], []]
             \<and> (\<exists>s4. fire tk1 (Complete 1) s3 = Inr s4 \<and> state s4 = Open
                   \<and> window_children s4 = [] \<and> touch_handlers \<subseteq> window_bound s4)"
    apply (rule exI [of _ s3])
    apply (intro conjI)
         apply (rule c0)
        apply (simp add: s3_def s(2))
       apply (simp add: s3_def)
      apply (simp add: s3_def aux)
     apply (simp add: s3_def an)
    apply (rule c1)
    done
  have "\<exists>s. reopened = Inr s \<and> state s = Open \<and> touch_handlers \<subseteq> window_bound s
       \<and> dispatched s = [''on_open'', ''on_close'', ''on_open'']
       \<and> map r_on_complete (animations s)
           = [[Close_binding], [], [Open_binding], [], [Open_binding], []]
       \<and> (\<exists>s2. run tk1 [Touch_down_at (0, 0), Touch_up_at (0, 0)] s = Inr s2
             \<and> state s2 = Close
             \<and> dispatched s2 = [''on_open'', ''on_close'', ''on_open'', ''on_close'']
             \<and> map r_on_complete (animations s2)
                 = [[Close_binding], [], [Open_binding], [], [Open_binding], [],
                    [Close_binding], [], []])
       \<and> (\<exists>s3. fire tk1 (Complete 0) s = Inr s3 \<and> state s3 = Open
             \<and> window_children s3 = [] \<and> window_bound s3 \<inter> touch_handlers = {}
             \<and> map r_on_complete (animations s3) = [[], [Open_binding], [], [Open_binding], []]
             \<and> (\<exists>s4. fire tk1 (Complete 1) s3 = Inr s4 \<and> state s4 = Open
                   \<and> window_children s4 = [] \<and> touch_handlers \<subseteq> window_bound s4))"
    apply (rule exI [of _ s])
    apply (intro conjI)
    apply (fact s(1) s(2) s(3) s(4) s(5) r c)+
    done
  with opened_tk1_data7 show ?thesis by (rule conjI)
qed

end
